theory Spec2Isabelle
  imports Main "HOL-Library.Word"
begin

unbundle bit_operations_syntax

section \<open>Values of the host language\<close>

text \<open>
  A JavaScript BigInt is an \<^typ>\<open>int\<close>.  Its division truncates towards zero and its
  remainder takes the sign of the dividend; both throw a RangeError on a zero divisor,
  which the callers below turn into an explicit branch.
\<close>

definition big_div :: "int \<Rightarrow> int \<Rightarrow> int" where
  "big_div a b = sgn a * sgn b * (\<bar>a\<bar> div \<bar>b\<bar>)"

definition big_rem :: "int \<Rightarrow> int \<Rightarrow> int" where
  "big_rem a b = sgn a * (\<bar>a\<bar> mod \<bar>b\<bar>)"

text \<open>
  Exceptions are values.  \<open>Thrown msg\<close> is \<open>throw new Error(msg)\<close>; the other three
  are the exceptions raised by the runtime itself.
\<close>

datatype error = RangeError | TypeError | SyntaxError | Thrown string

type_synonym 'a result = "error + 'a"

definition bind :: "'a result \<Rightarrow> ('a \<Rightarrow> 'b result) \<Rightarrow> 'b result" where
  "bind r f = (case r of Inl e \<Rightarrow> Inl e | Inr v \<Rightarrow> f v)"

text \<open>
  A JavaScript string is the list of its UTF-16 code units, a Buffer the list of its bytes.
\<close>

type_synonym jsstring = "nat list"
type_synonym byte = "8 word"
type_synonym buffer = "byte list"

definition digitChar :: "nat \<Rightarrow> nat" where
  "digitChar d = (if d < 10 then 48 + d else 87 + d)"

function digits_rev :: "nat \<Rightarrow> nat \<Rightarrow> nat list" where
  "digits_rev b x = (if b < 2 \<or> x < b then [x] else (x mod b) # digits_rev b (x div b))"
  by pat_completeness auto
termination
  by (relation "measure (\<lambda>(b, x). x)") auto

declare digits_rev.simps [simp del]

definition toStringRadix :: "nat \<Rightarrow> int \<Rightarrow> jsstring" where
  \<comment> \<open>\<open>x.toString(b)\<close> of a BigInt: a minus sign for a negative number, then the digits.\<close>
  "toStringRadix b x =
     (if x < 0 then [45] else []) @ map digitChar (rev (digits_rev b (nat \<bar>x\<bar>)))"

definition bitLength :: "int \<Rightarrow> nat" where
  \<comment> \<open>\<open>x.toString(2).length\<close>\<close>
  "bitLength x = length (toStringRadix 2 x)"

section \<open>Modular exponentiation: \<open>RSA.modPow\<close>\<close>

function modPow_loop :: "int \<Rightarrow> int \<Rightarrow> int \<Rightarrow> int \<Rightarrow> int" where
  "modPow_loop result base exp md =
     (if exp > 0
      then modPow_loop (if big_rem exp 2 = 1 then big_rem (result * base) md else result)
                       (big_rem (base * base) md) (big_div exp 2) md
      else result)"
  by pat_completeness auto
termination
  by (relation "measure (\<lambda>(r, b, e, m). nat e)") (auto simp: big_div_def sgn_if)

declare modPow_loop.simps [simp del]

definition modPow :: "int \<Rightarrow> int \<Rightarrow> int \<Rightarrow> int result" where
  "modPow base exp md =
     (if md = 0 then Inl RangeError else Inr (modPow_loop 1 (big_rem base md) exp md))"

section \<open>The Blum Blum Shub generator\<close>

record bbs =
  bbs_p :: int
  bbs_q :: int
  bbs_m :: int
  bbs_bits :: nat
  bbs_state :: int

definition new_BlumBlumShub :: "int \<Rightarrow> int \<Rightarrow> int \<Rightarrow> nat \<Rightarrow> bbs result" where
  \<comment> \<open>The constructor: \<open>seed % this.m\<close> throws when \<open>p * q\<close> is zero.\<close>
  "new_BlumBlumShub seed p q bits =
     (if p * q = 0 then Inl RangeError
      else Inr \<lparr> bbs_p = p, bbs_q = q, bbs_m = p * q, bbs_bits = bits,
                 bbs_state = (let s = big_rem seed (p * q) in if s = 0 then 1 else s) \<rparr>)"

definition nextBit :: "bbs \<Rightarrow> int \<times> bbs" where
  \<comment> \<open>Every generator the constructor returns has a non-zero modulus, so the remainder is defined.\<close>
  "nextBit g =
     (let s = big_rem (bbs_state g * bbs_state g) (bbs_m g)
      in (s AND 1, g \<lparr> bbs_state := s \<rparr>))"

fun nextBits_loop :: "nat \<Rightarrow> int \<Rightarrow> bbs \<Rightarrow> int \<times> bbs" where
  "nextBits_loop 0 result g = (result, g)"
| "nextBits_loop (Suc i) result g =
     (let (b, g') = nextBit g in nextBits_loop i (push_bit 1 result OR b) g')"

definition nextBits :: "nat \<Rightarrow> bbs \<Rightarrow> int \<times> bbs" where
  \<comment> \<open>\<open>1n << BigInt(n - 1)\<close> with \<open>n = 0\<close> shifts by \<open>-1\<close>, that is to the right, and gives 0.\<close>
  "nextBits n g =
     (let (r0, g') = nextBits_loop n 0 g;
          r1 = r0 OR (if n = 0 then 0 else push_bit (n - 1) 1);
          r2 = r1 OR 1;
          r3 = r2 - big_rem r2 4 + 3
      in (r3, g'))"

section \<open>Primality\<close>

text \<open>
  The mathematical notion the specification speaks of, as opposed to the probabilistic
  test the program runs.
\<close>

definition is_prime :: "int \<Rightarrow> bool" where
  "is_prime p \<longleftrightarrow> 1 < p \<and> (\<forall>d\<in>{2..<p}. \<not> d dvd p)"

subsection \<open>\<open>isPrimeMillerRabin\<close>\<close>

text \<open>
  The classes \<open>MillerRabin\<close>, \<open>BlumBlumShub\<close> and \<open>RSA\<close> carry three textually identical
  copies of this test; one model serves all of them.  Inside the test the modulus is at
  least 5, so \<open>RSA.modPow\<close> cannot throw there and its body is used directly.
\<close>

definition modPow_nz :: "int \<Rightarrow> int \<Rightarrow> int \<Rightarrow> int" where
  "modPow_nz base exp md = modPow_loop 1 (big_rem base md) exp md"

function mr_decompose :: "int \<Rightarrow> nat \<Rightarrow> int \<times> nat" where
  \<comment> \<open>\<open>while (d % 2n === 0n) { d /= 2n; r++ }\<close>; the test enters it with \<open>d = n - 1 \<ge> 4\<close>
      (on \<open>d = 0\<close> the source would not leave the loop).\<close>
  "mr_decompose d r =
     (if d \<noteq> 0 \<and> big_rem d 2 = 0 then mr_decompose (big_div d 2) (r + 1) else (d, r))"
  by pat_completeness auto
termination
  by (relation "measure (\<lambda>(d, r). nat \<bar>d\<bar>)") (auto simp: big_div_def sgn_if)

declare mr_decompose.simps [simp del]

definition mr_bases :: "int list" where
  "mr_bases = [2, 3, 5, 7, 11, 13, 17, 19, 23]"

function mr_inner :: "nat \<Rightarrow> nat \<Rightarrow> int \<Rightarrow> int \<Rightarrow> bool" where
  \<comment> \<open>\<open>for (j = 0n; j < r - 1n; j++)\<close>: true when some square reaches \<open>n - 1\<close> (\<open>continueOuter\<close>).\<close>
  "mr_inner j r x n =
     (if int j < int r - 1
      then (let x' = modPow_nz x 2 n in if x' = n - 1 then True else mr_inner (j + 1) r x' n)
      else False)"
  by pat_completeness auto
termination
  by (relation "measure (\<lambda>(j, r, x, n). r - j)") auto

declare mr_inner.simps [simp del]

function mr_outer :: "nat \<Rightarrow> nat \<Rightarrow> int \<Rightarrow> nat \<Rightarrow> int \<Rightarrow> bool" where
  "mr_outer i k d r n =
     (if i < k
      then (let a = mr_bases ! (i mod length mr_bases) in
            if a \<ge> n - 2 then mr_outer (i + 1) k d r n
            else (let x = modPow_nz a d n in
                  if x = 1 \<or> x = n - 1 then mr_outer (i + 1) k d r n
                  else if mr_inner 0 r x n then mr_outer (i + 1) k d r n
                  else False))
      else True)"
  by pat_completeness auto
termination
  by (relation "measure (\<lambda>(i, k, d, r, n). k - i)") auto

declare mr_outer.simps [simp del]

definition isPrimeMillerRabin :: "int \<Rightarrow> nat \<Rightarrow> bool" where
  "isPrimeMillerRabin n k =
     (if n = 2 \<or> n = 3 then True
      else if n < 2 \<or> big_rem n 2 = 0 then False
      else (let (d, r) = mr_decompose (n - 1) 0 in mr_outer 0 k d r n))"

section \<open>Searching the RSA primes: \<open>RSA.findPrimeRSA\<close>\<close>

text \<open>
  Of the \<open>RSA\<close> object the search reads \<open>this.bits\<close> and reads and advances \<open>this.prng\<close>.
\<close>

record rsa =
  rsa_bits :: nat
  rsa_prng :: bbs

function findPrimeRSA_loop :: "nat \<Rightarrow> nat \<Rightarrow> bool \<Rightarrow> nat \<Rightarrow> bbs \<Rightarrow> int result \<times> bbs" where
  "findPrimeRSA_loop i maxTries format2pAdd1 bits g =
     (if i < maxTries
      then (let (candidate, g') = nextBits bits g in
            if format2pAdd1
            then (if isPrimeMillerRabin (2 * candidate + 1) 16
                  then (Inr (2 * candidate + 1), g')
                  else findPrimeRSA_loop (i + 1) maxTries format2pAdd1 bits g')
            else (if isPrimeMillerRabin candidate 16
                  then (Inr candidate, g')
                  else findPrimeRSA_loop (i + 1) maxTries format2pAdd1 bits g'))
      else (Inl (Thrown ''Impossible de trouver un nombre premier RSA''), g))"
  by pat_completeness auto
termination
  by (relation "measure (\<lambda>(i, maxTries, f, bits, g). maxTries - i)") auto

declare findPrimeRSA_loop.simps [simp del]

definition findPrimeRSA :: "bool \<Rightarrow> nat \<Rightarrow> rsa \<Rightarrow> int result \<times> rsa" where
  "findPrimeRSA format2pAdd1 maxTries this =
     (let (res, g') = findPrimeRSA_loop 0 maxTries format2pAdd1 (rsa_bits this) (rsa_prng this)
      in (res, this \<lparr> rsa_prng := g' \<rparr>))"

section \<open>Number-theoretic helpers of the class \<open>RSA\<close>\<close>

function RSA_gcd :: "int \<Rightarrow> int \<Rightarrow> int" where
  "RSA_gcd a b = (if b \<noteq> 0 then RSA_gcd b (big_rem a b) else a)"
  by pat_completeness auto
termination
  by (relation "measure (\<lambda>(a, b). nat \<bar>b\<bar>)") (auto simp: big_rem_def sgn_if abs_mult)

declare RSA_gcd.simps [simp del]

function modInverse_loop :: "int \<Rightarrow> int \<Rightarrow> int \<Rightarrow> int \<Rightarrow> int result" where
  \<comment> \<open>The state is \<open>(a, m, x0, x1)\<close>; \<open>a / m\<close> throws once \<open>m\<close> has reached zero.\<close>
  "modInverse_loop a m x0 x1 =
     (if a > 1
      then (if m = 0 then Inl RangeError
            else (let q = big_div a m
                  in modInverse_loop m (big_rem a m) (x1 - q * x0) x0))
      else Inr x1)"
  by pat_completeness auto
termination
  by (relation "measure (\<lambda>(a, m, x0, x1). nat \<bar>m\<bar>)") (auto simp: big_rem_def sgn_if abs_mult)

declare modInverse_loop.simps [simp del]

text \<open>
  The invariant of this loop, relative to the arguments \<open>a0\<close> and \<open>m0\<close> of \<open>modInverse\<close>:
  the two coefficients are inverses-so-far, they have opposite signs, and their sizes are
  tied to the remainders.
\<close>

definition inv_state :: "int \<Rightarrow> int \<Rightarrow> int \<Rightarrow> int \<Rightarrow> int \<Rightarrow> int \<Rightarrow> bool" where
  "inv_state a0 m0 a m x0 x1 \<longleftrightarrow>
     0 < a \<and> 0 \<le> m \<and> m0 dvd (x1 * a0 - a) \<and> m0 dvd (x0 * a0 - m) \<and>
     \<bar>x0\<bar> * a + \<bar>x1\<bar> * m = m0 \<and> x0 * x1 \<le> 0 \<and>
     (2 * \<bar>x1\<bar> \<le> m0 \<or> x1 = 1) \<and> gcd a m = gcd a0 m0"

definition modInverse :: "int \<Rightarrow> int \<Rightarrow> int result" where
  "modInverse a m =
     (if m = 1 then Inr 0
      else bind (modInverse_loop a m 0 1) (\<lambda>x1. Inr (if x1 < 0 then x1 + m else x1)))"

function pow_loop :: "int \<Rightarrow> int \<Rightarrow> int \<Rightarrow> int" where
  "pow_loop result base exp =
     (if exp > 0
      then pow_loop (if big_rem exp 2 = 1 then result * base else result) (base * base)
                    (drop_bit 1 exp)
      else result)"
  by pat_completeness auto
termination
  by (relation "measure (\<lambda>(r, b, e). nat e)") (auto simp: drop_bit_eq_div)

declare pow_loop.simps [simp del]

definition RSA_pow :: "int \<Rightarrow> int \<Rightarrow> int" where
  "RSA_pow base exp = pow_loop 1 base exp"

function integerRoot_loop :: "int \<Rightarrow> int \<Rightarrow> int \<Rightarrow> int \<Rightarrow> int" where
  "integerRoot_loop low high n k =
     (if low < high
      then (let mid = drop_bit 1 (low + high + 1) in
            if RSA_pow mid k \<le> n then integerRoot_loop mid high n k
            else integerRoot_loop low (mid - 1) n k)
      else low)"
  by pat_completeness auto
termination
  by (relation "measure (\<lambda>(low, high, n, k). nat (high - low))") (auto simp: drop_bit_eq_div)

declare integerRoot_loop.simps [simp del]

definition integerRoot :: "int \<Rightarrow> int \<Rightarrow> int result" where
  "integerRoot n k =
     (if n < 0 then Inl (Thrown ''Negative input not supported'')
      else if n = 0 then Inr 0
      else if k \<le> 0 then Inl (Thrown ''Root exponent must be > 0'')
      else Inr (integerRoot_loop 1 n n k))"

section \<open>Key generation: \<open>RSA.generateKeys\<close>\<close>

record publicKey =
  pub_e :: int
  pub_n :: int

record privateKey =
  priv_p :: int
  priv_q :: int
  priv_e :: int
  priv_d :: int
  priv_n :: int
  priv_phi :: int
  priv_dp :: int
  priv_dq :: int
  priv_qinv :: int

definition startsWith :: "jsstring \<Rightarrow> jsstring \<Rightarrow> bool" where
  \<comment> \<open>\<open>s.startsWith(t)\<close>\<close>
  "startsWith s t \<longleftrightarrow> length t \<le> length s \<and> take (length t) s = t"

function hasRepeatingPattern_loop :: "nat \<Rightarrow> nat \<Rightarrow> jsstring \<Rightarrow> bool" where
  \<comment> \<open>\<open>for (len = minLength; len <= str.length / minRepeats; len++)\<close>, the quotient being a
      floating-point number.\<close>
  "hasRepeatingPattern_loop len minRepeats str =
     (if 0 < minRepeats \<and> len * minRepeats \<le> length str
      then (if startsWith (concat (replicate minRepeats (take len str))) str then True
            else hasRepeatingPattern_loop (len + 1) minRepeats str)
      else False)"
  by pat_completeness auto
termination
proof (relation "measure (\<lambda>(len, minRepeats, str). Suc (length str) - len)", goal_cases)
  case 1
  show ?case by simp
next
  case (2 len minRepeats str)
  then have "len \<le> len * minRepeats" by (cases minRepeats) simp_all
  with 2 have "len \<le> length str" by linarith
  then show ?case by (simp add: Suc_diff_le)
qed

declare hasRepeatingPattern_loop.simps [simp del]

definition hasRepeatingPattern :: "jsstring \<Rightarrow> bool" where
  \<comment> \<open>with the default arguments \<open>minLength = 2\<close>, \<open>minRepeats = 3\<close>\<close>
  "hasRepeatingPattern str = hasRepeatingPattern_loop 2 3 str"

definition nearestPowerOf2 :: "int \<Rightarrow> int" where
  "nearestPowerOf2 x =
     (let bits = bitLength x; lower = 2 ^ (bits - 1); upper = 2 ^ bits
      in if x - lower \<le> upper - x then lower else upper)"

definition sliceLast :: "nat \<Rightarrow> jsstring \<Rightarrow> jsstring" where
  \<comment> \<open>\<open>s.slice(-k)\<close>\<close>
  "sliceLast k s = drop (length s - k) s"

definition weak_exponent :: "int \<Rightarrow> int \<Rightarrow> bool result" where
  \<comment> \<open>The eight rejection tests on \<open>d\<close>, in their order; true stands for \<open>continue\<close>.\<close>
  "weak_exponent d n =
     bind (integerRoot n 4) (\<lambda>nRoot4.
       if d \<le> big_div nRoot4 3 then Inr True
       else if d \<le> 2 ^ (bitLength n div 2) then Inr True
       else (let dBin = toStringRadix 2 d;
                 hammingWeight = length (filter (\<lambda>x. x = 49) dBin) in
         if 4 * hammingWeight < length dBin then Inr True
         else bind (integerRoot n 10) (\<lambda>nRoot10.
           if d \<le> nRoot10 ^ 3 then Inr True
           else (let dDec = toStringRadix 10 d in
             if dDec = rev dDec \<or> dBin = rev dBin then Inr True
             else if hasRepeatingPattern dDec \<or> hasRepeatingPattern dBin then Inr True
             else (let nearestPow2 = nearestPowerOf2 d;
                       diff = (if d > nearestPow2 then d - nearestPow2 else nearestPow2 - d) in
               if diff < 2 ^ 16 then Inr True
               else (let tail = sliceLast 16 dBin in
                 if tail \<noteq> [] \<and> (list_all (\<lambda>c. c = 48) tail \<or> list_all (\<lambda>c. c = 49) tail)
                 then Inr True
                 else Inr False))))))"

definition forge_keys :: "int \<Rightarrow> int \<Rightarrow> int \<Rightarrow> int \<Rightarrow> int \<Rightarrow> int \<Rightarrow> (publicKey \<times> privateKey) result" where
  \<comment> \<open>The two object literals after the loop; \<open>d % (p - 1n)\<close> throws on a zero divisor.\<close>
  "forge_keys p q e d n phi =
     (if p - 1 = 0 \<or> q - 1 = 0 then Inl RangeError
      else bind (modInverse q p) (\<lambda>qinv.
        Inr (\<lparr> pub_e = e, pub_n = n \<rparr>,
             \<lparr> priv_p = p, priv_q = q, priv_e = e, priv_d = d, priv_n = n, priv_phi = phi,
               priv_dp = big_rem d (p - 1), priv_dq = big_rem d (q - 1), priv_qinv = qinv \<rparr>)))"

definition generateKeys_from :: "int \<Rightarrow> int \<Rightarrow> (publicKey \<times> privateKey) option result" where
  \<comment> \<open>One pass through the body of \<open>while (true)\<close> once the two searches have returned \<open>p\<close>
      and \<open>q\<close>: \<open>None\<close> is \<open>continue\<close>, \<open>Some\<close> is \<open>break\<close> followed by the assembly of the two
      key objects (before they are serialised).\<close>
  "generateKeys_from p q =
     (let e = 65537; n = p * q; phi = (p - 1) * (q - 1) in
      if RSA_gcd e phi \<noteq> 1 then Inr None
      else bind (modInverse e phi) (\<lambda>d.
           bind (weak_exponent d n) (\<lambda>weak.
             if weak then Inr None
             else bind (forge_keys p q e d n phi) (\<lambda>keys. Inr (Some keys)))))"

section \<open>The private operation\<close>

text \<open>
  What the specification calls a valid private key: the arithmetic relations between the
  nine fields, over two distinct odd primes.
\<close>

definition valid_private_key :: "privateKey \<Rightarrow> bool" where
  "valid_private_key k \<longleftrightarrow>
     is_prime (priv_p k) \<and> is_prime (priv_q k) \<and> priv_p k \<noteq> priv_q k
     \<and> 2 < priv_p k \<and> 2 < priv_q k
     \<and> priv_n k = priv_p k * priv_q k
     \<and> priv_phi k = (priv_p k - 1) * (priv_q k - 1)
     \<and> 0 < priv_e k \<and> 0 < priv_d k
     \<and> (priv_e k * priv_d k) mod priv_phi k = 1
     \<and> priv_dp k = priv_d k mod (priv_p k - 1)
     \<and> priv_dq k = priv_d k mod (priv_q k - 1)
     \<and> (priv_q k * priv_qinv k) mod priv_p k = 1
     \<and> 0 < priv_qinv k \<and> priv_qinv k < priv_p k"

text \<open>
  The four ways in which the decryption methods compute the integer \<open>mBigInt\<close> from a
  ciphertext; the blinding values are the draws of the random generator.
\<close>

definition private_exponentiation :: "privateKey \<Rightarrow> int \<Rightarrow> int result" where
  "private_exponentiation k c = modPow c (priv_d k) (priv_n k)"

definition blinded_exponentiation :: "privateKey \<Rightarrow> int \<Rightarrow> int \<Rightarrow> int result" where
  "blinded_exponentiation k r c = modPow c (priv_d k + r * priv_phi k) (priv_n k)"

definition crt_combine :: "privateKey \<Rightarrow> int \<Rightarrow> int \<Rightarrow> int result" where
  \<comment> \<open>\<open>h = ((mp - mq) * qinv) % p; if (h < 0n) h += p; mq + h * q\<close>\<close>
  "crt_combine k mp mq =
     (if priv_p k = 0 then Inl RangeError
      else (let h0 = big_rem ((mp - mq) * priv_qinv k) (priv_p k);
                h = (if h0 < 0 then h0 + priv_p k else h0)
            in Inr (mq + h * priv_q k)))"

definition crt_exponentiation :: "privateKey \<Rightarrow> int \<Rightarrow> int result" where
  "crt_exponentiation k c =
     bind (modPow c (priv_dp k) (priv_p k)) (\<lambda>mp.
     bind (modPow c (priv_dq k) (priv_q k)) (\<lambda>mq.
     crt_combine k mp mq))"

definition blinded_crt_exponentiation :: "privateKey \<Rightarrow> int \<Rightarrow> int \<Rightarrow> int \<Rightarrow> int result" where
  "blinded_crt_exponentiation k rp rq c =
     (let dp' = priv_dp k + rp * (priv_p k - 1);
          dq' = priv_dq k + rq * (priv_q k - 1)
      in bind (modPow c dp' (priv_p k)) (\<lambda>mp.
         bind (modPow c dq' (priv_q k)) (\<lambda>mq.
         crt_combine k mp mq)))"

text \<open>A toy key over the safe primes 7 and 11, with the public exponent of the program.\<close>

definition toy_key :: privateKey where
  "toy_key = \<lparr> priv_p = 7, priv_q = 11, priv_e = 65537, priv_d = 53, priv_n = 77,
      priv_phi = 60, priv_dp = 5, priv_dq = 3, priv_qinv = 2 \<rparr>"

section \<open>The class \<open>Hash\<close>: \<open>sha256\<close>\<close>

type_synonym word32 = "32 word"

text \<open>
  The source fills \<open>Hash.sha256.h\<close> and \<open>Hash.sha256.k\<close> on the first call with
  \<open>(Math.pow(p, .5) * 2 ** 32) | 0\<close> and \<open>(Math.pow(p, 1 / 3) * 2 ** 32) | 0\<close> over the
  first 64 primes \<open>p\<close>.  These are floating-point computations; the tables below hold
  their values, the constants of FIPS 180-4.  Of \<open>h\<close> only the first eight entries are
  ever read (\<open>hash.slice(0, 8)\<close> and \<open>oldHash[i]\<close> for \<open>i < 8\<close>).
\<close>

definition sha256_h :: "word32 list" where
  "sha256_h =
     [0x6A09E667, 0xBB67AE85, 0x3C6EF372, 0xA54FF53A,
      0x510E527F, 0x9B05688C, 0x1F83D9AB, 0x5BE0CD19]"

definition sha256_k :: "word32 list" where
  "sha256_k =
     [0x428A2F98, 0x71374491, 0xB5C0FBCF, 0xE9B5DBA5,
      0x3956C25B, 0x59F111F1, 0x923F82A4, 0xAB1C5ED5,
      0xD807AA98, 0x12835B01, 0x243185BE, 0x550C7DC3,
      0x72BE5D74, 0x80DEB1FE, 0x9BDC06A7, 0xC19BF174,
      0xE49B69C1, 0xEFBE4786, 0x0FC19DC6, 0x240CA1CC,
      0x2DE92C6F, 0x4A7484AA, 0x5CB0A9DC, 0x76F988DA,
      0x983E5152, 0xA831C66D, 0xB00327C8, 0xBF597FC7,
      0xC6E00BF3, 0xD5A79147, 0x06CA6351, 0x14292967,
      0x27B70A85, 0x2E1B2138, 0x4D2C6DFC, 0x53380D13,
      0x650A7354, 0x766A0ABB, 0x81C2C92E, 0x92722C85,
      0xA2BFE8A1, 0xA81A664B, 0xC24B8B70, 0xC76C51A3,
      0xD192E819, 0xD6990624, 0xF40E3585, 0x106AA070,
      0x19A4C116, 0x1E376C08, 0x2748774C, 0x34B0BCB5,
      0x391C0CB3, 0x4ED8AA4A, 0x5B9CCA4F, 0x682E6FF3,
      0x748F82EE, 0x78A5636F, 0x84C87814, 0x8CC70208,
      0x90BEFFFA, 0xA4506CEB, 0xBEF9A3F7, 0xC67178F2]"

definition rightRotate :: "word32 \<Rightarrow> nat \<Rightarrow> word32" where
  \<comment> \<open>\<open>(value >>> amount) | (value << (32 - amount))\<close>\<close>
  "rightRotate v amount = drop_bit amount v OR push_bit (32 - amount) v"

function sha256_pad :: "jsstring \<Rightarrow> jsstring" where
  \<comment> \<open>\<open>while (ascii.length % 64 - 56) ascii += '\x00'\<close>\<close>
  "sha256_pad ascii = (if length ascii mod 64 = 56 then ascii else sha256_pad (ascii @ [0]))"
  by pat_completeness auto
termination
proof (relation "measure (\<lambda>s. (120 - length s mod 64) mod 64)", goal_cases)
  case 1
  show ?case by simp
next
  case (2 ascii)
  define r where "r = length ascii mod 64"
  have r: "r < 64" "r \<noteq> 56" using 2 by (simp_all add: r_def)
  have "Suc (length ascii) mod 64 = (if r = 63 then 0 else Suc r)"
    unfolding r_def by (simp add: mod_Suc)
  moreover have "(120 - (if r = 63 then 0 else Suc r)) mod 64 < (120 - r) mod 64"
    using r by (cases "r < 56") (auto simp: mod_if)
  ultimately show ?case by (simp add: r_def)
qed

declare sha256_pad.simps [simp del]

definition shift_count :: "nat \<Rightarrow> nat" where
  \<comment> \<open>The count of \<open>j << ((3 - i) % 4) * 8\<close>: the remainder has the sign of \<open>3 - i\<close>, and
      \<open><<\<close> reduces its count modulo 32.\<close>
  "shift_count i = nat ((big_rem (3 - int i) 4 * 8) mod 32)"

definition or_at :: "nat \<Rightarrow> word32 \<Rightarrow> word32 list \<Rightarrow> word32 list" where
  \<comment> \<open>\<open>words[idx] |= v\<close> on an array that grows: a missing entry is \<open>undefined\<close>, and
      \<open>undefined | v\<close> is \<open>v\<close>.\<close>
  "or_at idx v ws =
     (if idx < length ws then ws[idx := ws ! idx OR v]
      else ws @ replicate (idx - length ws) 0 @ [v])"

fun sha256_words :: "nat \<Rightarrow> jsstring \<Rightarrow> word32 list \<Rightarrow> word32 list option" where
  \<comment> \<open>The loop over the padded string, from index \<open>i\<close> on; \<open>None\<close> is the \<open>return;\<close> of the
      ``ASCII check'', which leaves with \<open>undefined\<close>.\<close>
  "sha256_words i [] ws = Some ws"
| "sha256_words i (j # cs) ws =
     (if drop_bit 8 j \<noteq> 0 then None
      else sha256_words (i + 1) cs (or_at (i div 4) (push_bit (shift_count i) (of_nat j)) ws))"

definition sha256_round :: "nat \<Rightarrow> word32 list \<times> word32 list \<Rightarrow> word32 list \<times> word32 list" where
  \<comment> \<open>One pass of \<open>for (i = 0; i < 64; i++)\<close> on the schedule \<open>w\<close> and the working \<open>hash\<close>.
      Every sum is taken modulo \<open>2 ^ 32\<close>: the source adds at most five 32-bit values
      exactly and truncates with \<open>| 0\<close>.\<close>
  "sha256_round i = (\<lambda>(w, hash).
     (let a = hash ! 0; e = hash ! 4;
          wi = (if i < 16 then w ! i
                else (let w15 = w ! (i - 15); w2 = w ! (i - 2) in
                      w ! (i - 16)
                      + (rightRotate w15 7 XOR rightRotate w15 18 XOR drop_bit 3 w15)
                      + w ! (i - 7)
                      + (rightRotate w2 17 XOR rightRotate w2 19 XOR drop_bit 10 w2)));
          w' = (if i < length w then w[i := wi] else w @ [wi]);
          temp1 = hash ! 7
                + (rightRotate e 6 XOR rightRotate e 11 XOR rightRotate e 25)
                + ((e AND hash ! 5) XOR (NOT e AND hash ! 6))
                + sha256_k ! i
                + wi;
          temp2 = (rightRotate a 2 XOR rightRotate a 13 XOR rightRotate a 22)
                + ((a AND hash ! 1) XOR (a AND hash ! 2) XOR (hash ! 1 AND hash ! 2));
          hash' = (temp1 + temp2) # hash
      in (w', hash'[4 := hash' ! 4 + temp1])))"

definition sha256_chunk :: "word32 list \<Rightarrow> word32 list \<Rightarrow> word32 list" where
  "sha256_chunk oldHash w =
     (let (w', hash) = fold sha256_round [0..<64] (w, take 8 oldHash)
      in map (\<lambda>i. hash ! i + oldHash ! i) [0..<8] @ drop 8 hash)"

function sha256_chunks :: "word32 list \<Rightarrow> word32 list \<Rightarrow> word32 list" where
  \<comment> \<open>\<open>for (j = 0; j < words.length;) { w = words.slice(j, j += 16); ... }\<close>\<close>
  "sha256_chunks ws hash =
     (if ws = [] then hash else sha256_chunks (drop 16 ws) (sha256_chunk hash (take 16 ws)))"
  by pat_completeness auto
termination
  by (relation "measure (\<lambda>(ws, hash). length ws)") auto

declare sha256_chunks.simps [simp del]

definition hexByte :: "nat \<Rightarrow> jsstring" where
  \<comment> \<open>\<open>((b < 16) ? 0 : '') + b.toString(16)\<close>\<close>
  "hexByte b = (if b < 16 then [48] else []) @ toStringRadix 16 (int b)"

definition sha256_hex :: "word32 list \<Rightarrow> jsstring" where
  \<comment> \<open>\<open>for (i = 0; i < 8; i++) for (j = 3; j + 1; j--) ... (hash[i] >> (j * 8)) & 255\<close>, the
      shift being the signed one.\<close>
  "sha256_hex hash =
     concat (map (\<lambda>i. concat (map (\<lambda>j. hexByte (unat (signed_drop_bit (j * 8) (hash ! i) AND 255)))
                                   [3, 2, 1, 0]))
                 [0..<8])"

definition sha256_of :: "nat \<Rightarrow> jsstring \<Rightarrow> jsstring option" where
  \<comment> \<open>The body of \<open>sha256(ascii)\<close>, given \<open>ascii.length\<close> and the string that
      \<open>ascii += '\x80'\<close> extends.  \<open>None\<close> is the result \<open>undefined\<close>.\<close>
  "sha256_of len str =
     (let asciiBitLength = len * 8 in
      case sha256_words 0 (sha256_pad (str @ [128])) [] of
        None \<Rightarrow> None
      | Some words \<Rightarrow>
          Some (sha256_hex (sha256_chunks
                  (words @ [of_nat (asciiBitLength div 2 ^ 32), of_nat asciiBitLength])
                  sha256_h)))"

definition sha256 :: "jsstring \<Rightarrow> jsstring option" where
  \<comment> \<open>on a string\<close>
  "sha256 ascii = sha256_of (length ascii) ascii"

definition isHexDigit :: "nat \<Rightarrow> bool" where
  \<comment> \<open>a character of \<open>0123456789abcdef\<close>\<close>
  "isHexDigit c \<longleftrightarrow> (48 \<le> c \<and> c \<le> 57) \<or> (97 \<le> c \<and> c \<le> 102)"

section \<open>The key codec\<close>

text \<open>
  A parsed JSON document.  \<open>JSON.parse(text, reviver)\<close> parses the text and then replaces,
  bottom-up, every value \<open>v\<close> by \<open>reviver(key, v)\<close>; both revivers of the program ignore the
  key and never return \<open>undefined\<close>.  The text parser and the base64 decoder belong to the
  host; the model starts from the parsed document.  The numbers of JSON are left abstract,
  and \<open>JBigInt\<close> is a BigInt a reviver has produced.
\<close>

datatype 'n json =
    JNull
  | JBool bool
  | JNumber 'n
  | JString jsstring
  | JBigInt int
  | JArray "'n json list"
  | JObject "(jsstring \<times> 'n json) list"

fun revive :: "('n json \<Rightarrow> 'n json) \<Rightarrow> 'n json \<Rightarrow> 'n json" where
  "revive f (JArray vs) = f (JArray (map (revive f) vs))"
| "revive f (JObject kvs) = f (JObject (map (\<lambda>(k, v). (k, revive f v)) kvs))"
| "revive f v = f v"

definition isDigits :: "jsstring \<Rightarrow> bool" where
  \<comment> \<open>\<open>/^\d+$/\<close>\<close>
  "isDigits s \<longleftrightarrow> s \<noteq> [] \<and> list_all (\<lambda>c. 48 \<le> c \<and> c \<le> 57) s"

definition isTaggedDigits :: "jsstring \<Rightarrow> bool" where
  \<comment> \<open>\<open>/^\d+n$/\<close>\<close>
  "isTaggedDigits s \<longleftrightarrow> s \<noteq> [] \<and> last s = 110 \<and> isDigits (butlast s)"

definition parseDecimal :: "jsstring \<Rightarrow> int" where
  \<comment> \<open>\<open>BigInt(s)\<close> on a string of decimal digits\<close>
  "parseDecimal s = foldl (\<lambda>a c. 10 * a + (int c - 48)) 0 s"

definition decodeKey_reviver :: "'n json \<Rightarrow> 'n json" where
  \<comment> \<open>the reviver of \<open>decodeKeyBase64\<close>\<close>
  "decodeKey_reviver v =
     (case v of
        JString s \<Rightarrow> if isTaggedDigits s then JBigInt (parseDecimal (butlast s)) else v
      | _ \<Rightarrow> v)"

definition parseWithBigInt_reviver :: "'n json \<Rightarrow> 'n json" where
  \<comment> \<open>the reviver of \<open>parseWithBigInt\<close>\<close>
  "parseWithBigInt_reviver v =
     (case v of
        JString s \<Rightarrow>
          if isTaggedDigits s then JBigInt (parseDecimal (butlast s))
          else if isDigits s then JBigInt (parseDecimal s)
          else v
      | _ \<Rightarrow> v)"

definition decodeKeyBase64 :: "'n json \<Rightarrow> 'n json" where
  \<comment> \<open>on the document that the base64 text of the key parses to\<close>
  "decodeKeyBase64 doc = revive decodeKey_reviver doc"

definition parseWithBigInt :: "'n json \<Rightarrow> 'n json" where
  "parseWithBigInt doc = revive parseWithBigInt_reviver doc"

text \<open>
  A public key blob \<open>{"n": ..., "e": ...}\<close> with both values rendered by \<open>render\<close>; the
  field names are the strings \<open>n\<close> and \<open>e\<close>.
\<close>

definition public_blob :: "jsstring \<Rightarrow> jsstring \<Rightarrow> 'n json" where
  "public_blob n e = JObject [([110], JString n), ([101], JString e)]"

section \<open>Buffers and their encodings\<close>

text \<open>
  The functions of this section belong to the host (Node's \<open>Buffer\<close>); they are modelled
  from its documented behaviour.  \<open>byteAt\<close> reads an index as the exclusive-or and the
  typed-array store see it: out of range the read is \<open>undefined\<close>, which both turn into 0.
\<close>

definition byteAt :: "buffer \<Rightarrow> nat \<Rightarrow> byte" where
  "byteAt b i = (if i < length b then b ! i else 0)"

definition xorN :: "nat \<Rightarrow> buffer \<Rightarrow> buffer \<Rightarrow> buffer" where
  \<comment> \<open>\<open>r = Buffer.alloc(n); for (i = 0; i < n; i++) r[i] = a[i] ^ b[i]\<close>\<close>
  "xorN n a b = map (\<lambda>i. byteAt a i XOR byteAt b i) [0..<n]"

definition hexValue :: "nat \<Rightarrow> nat option" where
  "hexValue c =
     (if 48 \<le> c \<and> c \<le> 57 then Some (c - 48)
      else if 97 \<le> c \<and> c \<le> 102 then Some (c - 87)
      else if 65 \<le> c \<and> c \<le> 70 then Some (c - 55)
      else None)"

fun fromHex :: "jsstring \<Rightarrow> buffer" where
  \<comment> \<open>\<open>Buffer.from(s, "hex")\<close>: pairs of digits, up to the first pair that is not one.\<close>
  "fromHex (c1 # c2 # cs) =
     (case (hexValue c1, hexValue c2) of
        (Some h, Some l) \<Rightarrow> of_nat (16 * h + l) # fromHex cs
      | _ \<Rightarrow> [])"
| "fromHex _ = []"

definition bufferFromHex :: "jsstring option \<Rightarrow> buffer result" where
  \<comment> \<open>\<open>Buffer.from(x, "hex")\<close> where \<open>x\<close> may be \<open>undefined\<close>, on which it throws a TypeError.\<close>
  "bufferFromHex x = (case x of None \<Rightarrow> Inl TypeError | Some s \<Rightarrow> Inr (fromHex s))"

definition byteHex :: "byte \<Rightarrow> jsstring" where
  "byteHex b = [digitChar (unat b div 16), digitChar (unat b mod 16)]"

definition toHex :: "buffer \<Rightarrow> jsstring" where
  \<comment> \<open>\<open>buf.toString("hex")\<close>\<close>
  "toHex buf = concat (map byteHex buf)"

definition latin1 :: "buffer \<Rightarrow> jsstring" where
  \<comment> \<open>\<open>buf.toString("latin1")\<close>\<close>
  "latin1 buf = map unat buf"

definition parseHex :: "jsstring \<Rightarrow> int" where
  "parseHex s = foldl (\<lambda>a c. 16 * a + int (case hexValue c of Some v \<Rightarrow> v | None \<Rightarrow> 0)) 0 s"

definition bigIntOfBuffer :: "buffer \<Rightarrow> int result" where
  \<comment> \<open>\<open>BigInt("0x" + buf.toString("hex"))\<close>; the text \<open>0x\<close> alone is a SyntaxError.\<close>
  "bigIntOfBuffer buf = (if buf = [] then Inl SyntaxError else Inr (parseHex (toHex buf)))"

definition bufferOfBigInt :: "int \<Rightarrow> buffer" where
  \<comment> \<open>\<open>hex = m.toString(16); if (hex.length % 2) hex = "0" + hex; Buffer.from(hex, "hex")\<close>\<close>
  "bufferOfBigInt m =
     (let hex = toStringRadix 16 m
      in fromHex (if length hex mod 2 \<noteq> 0 then 48 # hex else hex))"

definition padLeft :: "nat \<Rightarrow> buffer \<Rightarrow> buffer" where
  \<comment> \<open>\<open>padded = Buffer.alloc(k); EM.copy(padded, k - EM.length)\<close>, for \<open>EM.length \<le> k\<close>\<close>
  "padLeft k em = replicate (k - length em) 0 @ em"

fun I2OSP_rev :: "int \<Rightarrow> nat \<Rightarrow> buffer" where
  "I2OSP_rev v 0 = []"
| "I2OSP_rev v (Suc n) = word_of_int (v AND 255) # I2OSP_rev (drop_bit 8 v) n"

definition I2OSP :: "int \<Rightarrow> nat \<Rightarrow> buffer" where
  \<comment> \<open>The loop fills \<open>result\<close> from its last index down.\<close>
  "I2OSP v len = rev (I2OSP_rev v len)"

subsection \<open>UTF-8\<close>

text \<open>
  \<open>Buffer.from(string)\<close> encodes the UTF-16 code units of a string in UTF-8, a lone
  surrogate becoming the three bytes of U+FFFD.  \<open>buf.toString("utf8")\<close> decodes, each
  maximal ill-formed part becoming U+FFFD, without removing a byte order mark.
\<close>

fun utf8_encode_units :: "nat list \<Rightarrow> nat list" where
  "utf8_encode_units [] = []"
| "utf8_encode_units (c # cs) =
     (if c < 128 then c # utf8_encode_units cs
      else if c < 2048 then (192 + c div 64) # (128 + c mod 64) # utf8_encode_units cs
      else if 55296 \<le> c \<and> c < 56320 then
        (case cs of
           d # ds \<Rightarrow>
             if 56320 \<le> d \<and> d < 57344 then
               (let cp = 65536 + (c - 55296) * 1024 + (d - 56320) in
                (240 + cp div 262144) # (128 + cp div 4096 mod 64) # (128 + cp div 64 mod 64)
                  # (128 + cp mod 64) # utf8_encode_units ds)
             else 239 # 191 # 189 # utf8_encode_units cs
         | [] \<Rightarrow> [239, 191, 189])
      else if 56320 \<le> c \<and> c < 57344 then 239 # 191 # 189 # utf8_encode_units cs
      else (224 + c div 4096) # (128 + c div 64 mod 64) # (128 + c mod 64) # utf8_encode_units cs)"

definition utf8_encode :: "jsstring \<Rightarrow> buffer" where
  "utf8_encode s = map of_nat (utf8_encode_units s)"

definition isCont :: "nat \<Rightarrow> bool" where
  "isCont b \<longleftrightarrow> 128 \<le> b \<and> b < 192"

definition second_ok :: "nat \<Rightarrow> nat \<Rightarrow> bool" where
  \<comment> \<open>the range of the byte that may follow the lead byte \<open>b\<close> of a 3 or 4 byte form\<close>
  "second_ok b c \<longleftrightarrow>
     (if b = 224 then 160 \<le> c \<and> c < 192
      else if b = 237 then 128 \<le> c \<and> c < 160
      else if b = 240 then 144 \<le> c \<and> c < 192
      else if b = 244 then 128 \<le> c \<and> c < 144
      else isCont c)"

fun utf8_decode_units :: "nat list \<Rightarrow> nat list" where
  "utf8_decode_units [] = []"
| "utf8_decode_units (b # bs) =
     (if b < 128 then b # utf8_decode_units bs
      else if 194 \<le> b \<and> b < 224 then
        (case bs of
           c # cs \<Rightarrow> if isCont c then ((b - 192) * 64 + (c - 128)) # utf8_decode_units cs
                     else 65533 # utf8_decode_units bs
         | [] \<Rightarrow> [65533])
      else if 224 \<le> b \<and> b < 240 then
        (case bs of
           c # cs \<Rightarrow>
             if second_ok b c then
               (case cs of
                  d # ds \<Rightarrow> if isCont d
                            then ((b - 224) * 4096 + (c - 128) * 64 + (d - 128)) # utf8_decode_units ds
                            else 65533 # utf8_decode_units cs
                | [] \<Rightarrow> [65533])
             else 65533 # utf8_decode_units bs
         | [] \<Rightarrow> [65533])
      else if 240 \<le> b \<and> b < 245 then
        (case bs of
           c # cs \<Rightarrow>
             if second_ok b c then
               (case cs of
                  d # ds \<Rightarrow>
                    if isCont d then
                      (case ds of
                         e # es \<Rightarrow>
                           if isCont e then
                             (let cp = (b - 240) * 262144 + (c - 128) * 4096 + (d - 128) * 64
                                       + (e - 128) - 65536
                              in (55296 + cp div 1024) # (56320 + cp mod 1024) # utf8_decode_units es)
                           else 65533 # utf8_decode_units ds
                       | [] \<Rightarrow> [65533])
                    else 65533 # utf8_decode_units cs
                | [] \<Rightarrow> [65533])
             else 65533 # utf8_decode_units bs
         | [] \<Rightarrow> [65533])
      else 65533 # utf8_decode_units bs)"

definition utf8_decode :: "buffer \<Rightarrow> jsstring" where
  "utf8_decode buf = utf8_decode_units (map unat buf)"

fun wellFormed :: "jsstring \<Rightarrow> bool" where
  \<comment> \<open>a string of code units below \<open>2 ^ 16\<close> in which every surrogate is paired\<close>
  "wellFormed [] = True"
| "wellFormed (c # cs) =
     (if 55296 \<le> c \<and> c < 56320 then
        (case cs of d # ds \<Rightarrow> 56320 \<le> d \<and> d < 57344 \<and> wellFormed ds | [] \<Rightarrow> False)
      else \<not> (56320 \<le> c \<and> c < 57344) \<and> c < 65536 \<and> wellFormed cs)"

definition sha256_buffer :: "buffer \<Rightarrow> jsstring option" where
  \<comment> \<open>\<open>Hash.sha256\<close> on a Buffer, as the padding code calls it for the label: \<open>.length\<close>
      counts the bytes, and \<open>+=\<close> turns the buffer into its UTF-8 text.\<close>
  "sha256_buffer buf = sha256_of (length buf) (utf8_decode buf)"

section \<open>The random generator \<open>GenerateCryptoRandomNumber\<close>\<close>

text \<open>
  The entropy oracle \<open>generateSecureSeedNode(bytes)\<close> is outside the program; the values it
  returns are inputs of the model.  Every seed is read as \<open>BigInt("0x" + oracle)\<close>: the
  decimal digits of the oracle's BigInt are read again as hexadecimal digits.
\<close>

definition reseed :: "int \<Rightarrow> int" where
  "reseed v = parseHex (toStringRadix 10 v)"

function generatePrime3Mod4_loop :: "nat \<Rightarrow> nat \<Rightarrow> int \<Rightarrow> nat \<Rightarrow> int result" where
  "generatePrime3Mod4_loop tries maxTries seed bits =
     (if tries < maxTries
      then bind (new_BlumBlumShub (seed + int tries) 499 547 bits) (\<lambda>prng.
             (let candidate = fst (nextBits bits prng) in
              if isPrimeMillerRabin candidate 16 \<and> big_rem candidate 4 = 3 then Inr candidate
              else generatePrime3Mod4_loop (tries + 1) maxTries seed bits))
      else Inl (Thrown ''Echec : impossible de generer un premier 3 mod 4''))"
  by pat_completeness auto
termination
  by (relation "measure (\<lambda>(tries, maxTries, seed, bits). maxTries - tries)") auto

declare generatePrime3Mod4_loop.simps [simp del]

definition generatePrimes3Mod4 :: "int \<Rightarrow> nat \<Rightarrow> int result" where
  \<comment> \<open>\<open>generatePrimes3Mod4\<close> calls \<open>generatePrime3Mod4\<close> with its default \<open>maxTries = 1000\<close>.\<close>
  "generatePrimes3Mod4 seed bits = generatePrime3Mod4_loop 0 1000 seed bits"

record gcrn =
  gcrn_bits :: nat
  gcrn_prng :: bbs

type_synonym entropy = "int \<times> int \<times> int"

definition initPRNG :: "nat \<Rightarrow> entropy \<Rightarrow> gcrn result" where
  \<comment> \<open>\<open>new GenerateCryptoRandomNumber().initPRNG(bits)\<close>, with \<open>prop_bbs_factor = 2\<close>; the
      entropy is what the oracle returns for 59, 47 and 31 bytes.  A fractional
      \<open>bits / 2\<close> ends in the RangeError of \<open>BigInt(n - 1)\<close> inside the first draw.\<close>
  "initPRNG bits = (\<lambda>(o59, o47, o31).
     if bits mod 2 \<noteq> 0 then Inl RangeError
     else bind (generatePrimes3Mod4 (reseed o59) (bits div 2)) (\<lambda>p.
          bind (generatePrimes3Mod4 (reseed o47) (bits div 2)) (\<lambda>q.
          bind (new_BlumBlumShub (reseed o31) p q bits) (\<lambda>prng.
          Inr \<lparr> gcrn_bits = bits, gcrn_prng = prng \<rparr>))))"

definition nextNumber :: "gcrn \<Rightarrow> int \<times> gcrn" where
  "nextNumber rng =
     (let (v, g') = nextBits (gcrn_bits rng) (gcrn_prng rng) in (v, rng \<lparr> gcrn_prng := g' \<rparr>))"

section \<open>The mask generation function\<close>

function MGF1_blocks :: "nat \<Rightarrow> nat \<Rightarrow> buffer \<Rightarrow> buffer result" where
  \<comment> \<open>the concatenation of the blocks \<open>T[i], T[i + 1], ..., T[count - 1]\<close>\<close>
  "MGF1_blocks i count seed =
     (if i < count
      then bind (bufferFromHex (sha256 (toHex (seed @ I2OSP (int i) 4)))) (\<lambda>hash.
           bind (MGF1_blocks (i + 1) count seed) (\<lambda>rest. Inr (hash @ rest)))
      else Inr [])"
  by pat_completeness auto
termination
  by (relation "measure (\<lambda>(i, count, seed). count - i)") auto

declare MGF1_blocks.simps [simp del]

definition MGF1 :: "buffer \<Rightarrow> nat \<Rightarrow> buffer result" where
  \<comment> \<open>\<open>count = Math.ceil(maskLen / hLen)\<close> with \<open>hLen = 32\<close>\<close>
  "MGF1 seed maskLen =
     bind (MGF1_blocks 0 ((maskLen + 31) div 32) seed) (\<lambda>T. Inr (take maskLen T))"

section \<open>The signature padding: EMSA-PSS\<close>

fun salt_loop :: "nat \<Rightarrow> gcrn \<Rightarrow> buffer" where
  \<comment> \<open>\<open>for (i = 0; i < hLen; i++) salt[i] = Number(rngq.nextNumber() & 0xFFn)\<close>\<close>
  "salt_loop 0 rng = []"
| "salt_loop (Suc i) rng = (let (v, rng') = nextNumber rng in word_of_int (v AND 255) # salt_loop i rng')"

definition clearUnused :: "int \<Rightarrow> buffer \<Rightarrow> buffer" where
  \<comment> \<open>\<open>if (unusedBits > 0) buf[0] &= 0xFF >> unusedBits\<close>; \<open>>>\<close> reduces its count modulo 32,
      and a store into an empty buffer is lost.\<close>
  "clearUnused unusedBits buf =
     (if unusedBits > 0 \<and> buf \<noteq> []
      then buf[0 := buf ! 0 AND drop_bit (nat (unusedBits mod 32)) 255]
      else buf)"


function findSeparator :: "nat \<Rightarrow> buffer \<Rightarrow> nat option result" where
  \<comment> \<open>the search for the byte \<open>0x01\<close> behind the zero bytes; \<open>None\<close> is \<open>idx = -1\<close>\<close>
  "findSeparator i DB =
     (if i < length DB
      then (if DB ! i = 1 then Inr (Some i)
            else if DB ! i \<noteq> 0 then Inl (Thrown ''Invalid DB format'')
            else findSeparator (i + 1) DB)
      else Inr None)"
  by pat_completeness auto
termination
  by (relation "measure (\<lambda>(i, DB). length DB - i)") auto

declare findSeparator.simps [simp del]

definition emsaPSSverify :: "jsstring option \<Rightarrow> buffer \<Rightarrow> nat \<Rightarrow> bool result" where
  "emsaPSSverify mHashHex EM emBits =
     (let emLen = length EM in
      if emLen < 32 + 2 then Inl (Thrown ''Encoded message too short'')
      else if EM ! (emLen - 1) \<noteq> 188 then Inl (Thrown ''Invalid trailer byte'')
      else bind (bufferFromHex mHashHex) (\<lambda>mHash.
           (let maskedDB = take (emLen - 32 - 1) EM;
                H = take 32 (drop (emLen - 32 - 1) EM) in
            bind (MGF1 H (length maskedDB)) (\<lambda>dbMask.
            (let DB = clearUnused (8 * int emLen - int emBits)
                        (xorN (length maskedDB) maskedDB dbMask) in
             bind (findSeparator 0 DB) (\<lambda>idx.
               (case idx of
                  None \<Rightarrow> Inl (Thrown ''0x01 byte not found in DB'')
                | Some i \<Rightarrow>
                    (let salt = drop (i + 1) DB in
                     if length salt \<noteq> 32 then Inl (Thrown ''Salt length incorrect'')
                     else (let M' = replicate 8 0 @ mHash @ salt in
                           bind (bufferFromHex (sha256 (latin1 M'))) (\<lambda>Hprime.
                             if H \<noteq> Hprime then Inl (Thrown ''Hash mismatch'')
                             else Inr True))))))))))"

section \<open>Signing and verifying\<close>


definition verifyPSS :: "int \<Rightarrow> publicKey \<Rightarrow> jsstring \<Rightarrow> bool result" where
  \<comment> \<open>Only the call of \<open>emsaPSSverify\<close> stands inside \<open>try\<close>: whatever it throws becomes
      \<open>false\<close>.\<close>
  "verifyPSS signature publicKey message =
     (let emBits = bitLength (pub_n publicKey) - 1;
          k = (emBits + 7) div 8 in
      bind (modPow signature (pub_e publicKey) (pub_n publicKey)) (\<lambda>m.
      (let mBuf = bufferOfBigInt m in
       if length mBuf > k
       then Inl (Thrown ''Encoded message length too long in verification'')
       else (let EMbuf = padLeft k mBuf;
                 mHashHex = sha256 message in
             case emsaPSSverify mHashHex EMbuf emBits of
               Inr result \<Rightarrow> Inr result
             | Inl e \<Rightarrow> Inr False))))"

section \<open>The encryption padding: OAEP\<close>

function getSeed_loop :: "buffer \<Rightarrow> nat \<Rightarrow> gcrn \<Rightarrow> buffer" where
  \<comment> \<open>\<open>while (seedBytes.length < hLen) { ...; seedBytes.push(...buf) }\<close> and the final
      \<open>slice(0, hLen)\<close>.  Every draw is positive and so has at least one byte: the loop ends.\<close>
  "getSeed_loop seedBytes hLen rng =
     (if length seedBytes < hLen
      then (let (rand, rng') = nextNumber rng
            in getSeed_loop (seedBytes @ bufferOfBigInt rand) hLen rng')
      else take hLen seedBytes)"
  by pat_completeness auto
termination
proof (relation "measure (\<lambda>(seedBytes, hLen, rng). hLen - length seedBytes)", goal_cases)
  case 1
  show ?case by simp
next
  case (2 seedBytes hLen rng x rand rng')
  have loop: "0 \<le> acc \<Longrightarrow> 0 \<le> fst (nextBits_loop i acc g)" for i acc g
    by (induction i arbitrary: acc g) (simp_all add: nextBit_def Let_def split_beta)
  have pos: "0 < fst (nextBits n g)" for n g
  proof -
    obtain r0 g' where l: "nextBits_loop n 0 g = (r0, g')" by (cases "nextBits_loop n 0 g")
    with loop [of 0 n g] have r0: "0 \<le> r0" by simp
    define r2 where "r2 = (r0 OR (if n = 0 then 0 else push_bit (n - 1) 1)) OR 1"
    have "0 \<le> r2" using r0 by (simp add: r2_def)
    then have "r2 mod 4 \<le> r2" "big_rem r2 4 = r2 mod 4"
      by (simp_all add: big_rem_def sgn_if zmod_le_nonneg_dividend)
    then have "0 < r2 - big_rem r2 4 + 3" by simp
    then show ?thesis by (simp add: nextBits_def l r2_def Let_def)
  qed
  have digits: "list_all (\<lambda>d. d < 16) (digits_rev 16 y) \<and> digits_rev 16 y \<noteq> []" for y
    by (induction "16 :: nat" y rule: digits_rev.induct) (subst digits_rev.simps, simp)+
  have hv: "d < 16 \<Longrightarrow> hexValue (digitChar d) \<noteq> None" for d
    by (simp add: hexValue_def digitChar_def)
  have nonempty: "bufferOfBigInt v \<noteq> []" if "0 < v" for v
  proof -
    define ds where "ds = rev (digits_rev 16 (nat \<bar>v\<bar>))"
    have ds: "list_all (\<lambda>d. d < 16) ds" "ds \<noteq> []"
      using digits [of "nat \<bar>v\<bar>"] by (simp_all add: ds_def)
    have hex: "toStringRadix 16 v = map digitChar ds"
      using that by (simp add: toStringRadix_def ds_def)
    show ?thesis
    proof (cases ds)
      case Nil
      with ds(2) show ?thesis by simp
    next
      case (Cons d1 ds1)
      show ?thesis
      proof (cases ds1)
        case Nil
        with Cons ds(1) hv [of d1] show ?thesis
          by (auto simp: bufferOfBigInt_def hex hexValue_def [of 48])
      next
        case (Cons d2 ds2)
        with \<open>ds = d1 # ds1\<close> ds(1) hv [of d1] hv [of d2] show ?thesis
          by (auto simp: bufferOfBigInt_def hex hexValue_def [of 48] Let_def)
      qed
    qed
  qed
  from 2 have "rand = fst (nextBits (gcrn_bits rng) (gcrn_prng rng))"
    by (simp add: nextNumber_def split_beta)
  with nonempty [OF pos] have "bufferOfBigInt rand \<noteq> []" by simp
  with 2 show ?case by (cases "bufferOfBigInt rand") auto
qed

declare getSeed_loop.simps [simp del]

definition getSeedFromBBS :: "gcrn \<Rightarrow> nat \<Rightarrow> buffer" where
  "getSeedFromBBS rng hLen = getSeed_loop [] hLen rng"

definition OAEPEncode :: "jsstring \<Rightarrow> buffer \<Rightarrow> nat \<Rightarrow> entropy \<Rightarrow> buffer result" where
  "OAEPEncode message label k ent =
     (let mBuf = utf8_encode message;
          mLen = length mBuf;
          psLen = int k - int mLen - 2 * 32 - 2 in
      if psLen < 0 then Inl (Thrown ''Message trop long pour OAEP'')
      else bind (bufferFromHex (sha256_buffer label)) (\<lambda>lHash.
           (let DB = lHash @ replicate (nat psLen) 0 @ [1] @ mBuf in
            bind (initPRNG 64 ent) (\<lambda>rng.
            (let seed = getSeedFromBBS rng 32 in
             bind (MGF1 seed (k - 32 - 1)) (\<lambda>dbMask.
             (let maskedDB = xorN (length DB) DB dbMask in
              bind (MGF1 maskedDB 32) (\<lambda>seedMask.
              (let maskedSeed = xorN 32 seed seedMask in
               Inr ([0] @ maskedSeed @ maskedDB))))))))))"

function skipZeros :: "nat \<Rightarrow> buffer \<Rightarrow> nat" where
  \<comment> \<open>\<open>while (i < DB.length && DB[i] === 0x00) i++\<close>\<close>
  "skipZeros i DB = (if i < length DB \<and> DB ! i = 0 then skipZeros (i + 1) DB else i)"
  by pat_completeness auto
termination
  by (relation "measure (\<lambda>(i, DB). length DB - i)") auto

declare skipZeros.simps [simp del]

definition OAEPDecode :: "buffer \<Rightarrow> buffer \<Rightarrow> jsstring result" where
  "OAEPDecode encoded label =
     (if encoded = [] \<or> encoded ! 0 \<noteq> 0 then Inl (Thrown ''Erreur OAEP : Y != 0x00'')
      else (let maskedSeed = take 32 (drop 1 encoded);
                maskedDB = drop (1 + 32) encoded in
            bind (MGF1 maskedDB 32) (\<lambda>seedMask.
            (let seed = xorN 32 maskedSeed seedMask in
             bind (MGF1 seed (length maskedDB)) (\<lambda>dbMask.
             (let DB = xorN (length maskedDB) maskedDB dbMask in
              bind (bufferFromHex (sha256_buffer label)) (\<lambda>lHash.
                if take 32 DB \<noteq> lHash then Inl (Thrown ''Erreur OAEP : lHash'')
                else (let i = skipZeros 32 DB in
                      if \<not> (i < length DB \<and> DB ! i = 1)
                      then Inl (Thrown ''Erreur OAEP : separateur 0x01 manquant'')
                      else Inr (utf8_decode (drop (i + 1) DB))))))))))"

section \<open>Encrypting and decrypting\<close>

definition encryptOAEP :: "jsstring \<Rightarrow> publicKey \<Rightarrow> entropy \<Rightarrow> int result" where
  "encryptOAEP message publicKey ent =
     (let k = (bitLength (pub_n publicKey) + 7) div 8 in
      bind (OAEPEncode message [] k ent) (\<lambda>EM.
      bind (bigIntOfBuffer EM) (\<lambda>m.
        if m \<ge> pub_n publicKey then Inl (Thrown ''Message trop grand pour RSA'')
        else modPow m (pub_e publicKey) (pub_n publicKey))))"

definition decodeInteger :: "privateKey \<Rightarrow> int \<Rightarrow> jsstring result" where
  \<comment> \<open>The common end of the four methods: the integer as bytes, padded on the left to
      \<open>k\<close> bytes when shorter, then decoded with the empty label.\<close>
  "decodeInteger privateKey m =
     (let EM = bufferOfBigInt m;
          k = (bitLength (priv_n privateKey) + 7) div 8
      in if length EM < k then OAEPDecode (padLeft k EM) [] else OAEPDecode EM [])"

definition decryptOAEP :: "int \<Rightarrow> privateKey \<Rightarrow> jsstring result" where
  "decryptOAEP c privateKey =
     bind (private_exponentiation privateKey c) (decodeInteger privateKey)"

definition decryptOAEPBlinding :: "int \<Rightarrow> privateKey \<Rightarrow> entropy \<Rightarrow> jsstring result" where
  "decryptOAEPBlinding c privateKey ent =
     bind (initPRNG 64 ent) (\<lambda>rng.
       (let r = fst (nextNumber rng) AND 65535 in
        bind (blinded_exponentiation privateKey r c) (decodeInteger privateKey)))"

definition decryptOAEPCRT :: "int \<Rightarrow> privateKey \<Rightarrow> jsstring result" where
  "decryptOAEPCRT c privateKey =
     bind (crt_exponentiation privateKey c) (decodeInteger privateKey)"

definition decryptOAEPBlindingCRT :: "int \<Rightarrow> privateKey \<Rightarrow> entropy \<Rightarrow> entropy \<Rightarrow> jsstring result" where
  \<comment> \<open>This variant draws \<open>rp\<close> and \<open>rq\<close> from two generators and does not cut them to 16 bits.\<close>
  "decryptOAEPBlindingCRT c privateKey entp entq =
     bind (initPRNG 64 entp) (\<lambda>rngp.
       (let rp0 = fst (nextNumber rngp); rp = (if rp0 = 0 then 1 else rp0) in
        bind (initPRNG 64 entq) (\<lambda>rngq.
          (let rq0 = fst (nextNumber rngq); rq = (if rq0 = 0 then 1 else rq0) in
           bind (blinded_crt_exponentiation privateKey rp rq c) (decodeInteger privateKey)))))"

definition publicOf :: "privateKey \<Rightarrow> publicKey" where
  \<comment> \<open>the public key that \<open>generateKeys\<close> returns beside a private key\<close>
  "publicOf k = \<lparr> pub_e = priv_e k, pub_n = priv_n k \<rparr>"

section \<open>A key for the examples\<close>


text \<open>
  A private key over the Proth primes \<open>17 * 2 ^ 267 + 1\<close> and \<open>81 * 2 ^ 267 + 1\<close>, with the
  public exponent of the program; its modulus has 545 bits.
\<close>

definition big_key :: privateKey where
  "big_key = \<lparr>
     priv_p = 4031417378886400659867047414062478199819447786118941877597755244819503521544011777,
     priv_q = 19208518099399909026425343561121219657963251216213781887377539695904693249709703169,
     priv_e = 65537,
     priv_d = 34528284692426138866178669870834961950617385640178949107536882725621121119814058268321627580924614418239578338797853396071850579839941968645633154889068004262215681,
     priv_n = 77437553688574767739126394063544962745794661648771740047246755293581254357307984991106423287849531064985404649463176265090921281812919398372354008274838404110221313,
     priv_phi = 77437553688574767739126394063544962745794661648771740047246755293581254357307984967866487809563221378693013674279478407308222279480195633397059067550641632856506368,
     priv_dp = 237257989080440779179809907014953055780759114867338432059669224701601005273284609,
     priv_dq = 18260065094690231964467786581647208537326525688104960943673163260365263807470043137,
     priv_qinv = 1070845241266700175277184469360345771827040818187843936236903736905180622910128128 \<rparr>"

text \<open>
  A certificate for a modular power \<open>a ^ d mod N\<close>, read off the binary digits of \<open>d\<close>
  from the second one on: each triple \<open>(b, q, y)\<close> records one squaring, followed by a
  multiplication by \<open>a\<close> when the digit \<open>b\<close> is set, as \<open>x * x * a = q * N + y\<close>.
\<close>

fun pow_chain :: "int \<Rightarrow> int \<Rightarrow> int \<Rightarrow> int \<Rightarrow> (bool \<times> int \<times> int) list \<Rightarrow> (int \<times> int) option" where
  "pow_chain N a x e [] = Some (x, e)"
| "pow_chain N a x e ((b, q, y) # c) =
     (if b then (if x * x * a = q * N + y then pow_chain N a y (2 * e + 1) c else None)
      else (if x * x = q * N + y then pow_chain N a y (2 * e) c else None))"

section \<open>Facts about the host arithmetic\<close>

lemma big_rem_nonneg [simp]: "0 \<le> a \<Longrightarrow> 0 \<le> b \<Longrightarrow> big_rem a b = a mod b"
  by (simp add: big_rem_def sgn_if)

lemma big_div_nonneg [simp]: "0 \<le> a \<Longrightarrow> 0 \<le> b \<Longrightarrow> big_div a b = a div b"
  by (simp add: big_div_def sgn_if)

lemma nextBit_range: "fst (nextBit g) = 0 \<or> fst (nextBit g) = 1"
  by (simp add: nextBit_def Let_def and_one_eq) presburger

lemma nextBits_loop_bound:
  "0 \<le> acc \<Longrightarrow> acc < 2 ^ j \<Longrightarrow>
   0 \<le> fst (nextBits_loop i acc g) \<and> fst (nextBits_loop i acc g) < 2 ^ (j + i)"
proof (induction i arbitrary: acc g j)
  case 0
  then show ?case by simp
next
  case (Suc i)
  obtain b g' where bg: "nextBit g = (b, g')" by (cases "nextBit g")
  with nextBit_range [of g] have b: "b = 0 \<or> b = 1" by simp
  let ?acc = "push_bit 1 acc OR b"
  have eq: "?acc = 2 * acc + b"
    using b by (auto simp: push_bit_eq_mult or_one_eq)
  have "0 \<le> ?acc" "?acc < 2 ^ (Suc j)"
    using Suc.prems b unfolding eq by auto
  from Suc.IH [OF this] show ?case
    by (simp add: bg)
qed

lemma bind_simps [simp]: "bind (Inr v) f = f v" "bind (Inl e) f = Inl e"
  by (simp_all add: bind_def)

lemma bind_weak_cong: "r = r' \<Longrightarrow> bind r f = bind r' f"
  by simp

lemma bind_eq_Inr_iff: "bind r f = Inr y \<longleftrightarrow> (\<exists>v. r = Inr v \<and> f v = Inr y)"
  by (cases r) simp_all

lemma RSA_gcd_eq: "0 \<le> a \<Longrightarrow> 0 \<le> b \<Longrightarrow> RSA_gcd a b = gcd a b"
proof (induction a b rule: RSA_gcd.induct)
  case (1 a b)
  show ?case
  proof (cases "b = 0")
    case True
    with 1 show ?thesis by (subst RSA_gcd.simps) simp
  next
    case False
    with 1 have "RSA_gcd b (a mod b) = gcd b (a mod b)" by simp
    moreover have "gcd a b = gcd b (a mod b)" by (rule gcd_red_int)
    moreover have "RSA_gcd a b = RSA_gcd b (a mod b)"
      using False 1(2,3) by (subst RSA_gcd.simps) simp
    ultimately show ?thesis by simp
  qed
qed

lemma inv_state_step:
  assumes "inv_state a0 m0 a m x0 x1" "1 < a" "m \<noteq> 0"
  shows "inv_state a0 m0 m (a mod m) (x1 - (a div m) * x0) x0"
proof -
  from assms have a: "0 \<le> a" and m: "0 < m"
    and d1: "m0 dvd (x1 * a0 - a)" and d0: "m0 dvd (x0 * a0 - m)"
    and s: "\<bar>x0\<bar> * a + \<bar>x1\<bar> * m = m0" and o: "x0 * x1 \<le> 0"
    and g: "gcd a m = gcd a0 m0"
    by (auto simp: inv_state_def)
  let ?q = "a div m"
  have q: "0 \<le> ?q" using a m by (simp add: pos_imp_zdiv_nonneg_iff)
  have am: "a mod m = a - ?q * m" by (simp add: minus_div_mult_eq_mod)
  have "(x1 - ?q * x0) * a0 - (a mod m) = (x1 * a0 - a) - ?q * (x0 * a0 - m)"
    unfolding am by (simp add: algebra_simps)
  then have n0: "m0 dvd ((x1 - ?q * x0) * a0 - (a mod m))"
    using d1 d0 by simp
  have opp: "(x0 \<le> 0 \<and> 0 \<le> x1) \<or> (0 \<le> x0 \<and> x1 \<le> 0)"
    using o by (metis mult_le_0_iff)
  have absq: "\<bar>x1 - ?q * x0\<bar> = \<bar>x1\<bar> + ?q * \<bar>x0\<bar>"
  proof -
    from opp show ?thesis
    proof
      assume h: "x0 \<le> 0 \<and> 0 \<le> x1"
      then have "?q * x0 \<le> 0" using q by (simp add: mult_nonneg_nonpos)
      with h have "\<bar>x1 - ?q * x0\<bar> = x1 - ?q * x0" "\<bar>x1\<bar> = x1" "\<bar>x0\<bar> = - x0"
        by simp_all
      then show ?thesis by simp
    next
      assume h: "0 \<le> x0 \<and> x1 \<le> 0"
      then have "0 \<le> ?q * x0" using q by simp
      with h have "\<bar>x1 - ?q * x0\<bar> = ?q * x0 - x1" "\<bar>x1\<bar> = - x1" "\<bar>x0\<bar> = x0"
        by simp_all
      then show ?thesis by simp
    qed
  qed
  have sum: "\<bar>x1 - ?q * x0\<bar> * m + \<bar>x0\<bar> * (a mod m) = m0"
    unfolding absq am using s by (simp add: algebra_simps)
  have sgn: "(x1 - ?q * x0) * x0 \<le> 0"
  proof -
    have "(x1 - ?q * x0) * x0 = x0 * x1 - ?q * (x0 * x0)" by (simp add: algebra_simps)
    moreover have "0 \<le> ?q * (x0 * x0)" using q by simp
    ultimately show ?thesis using o by linarith
  qed
  have half: "2 * \<bar>x0\<bar> \<le> m0"
  proof -
    have "\<bar>x0\<bar> * 2 \<le> \<bar>x0\<bar> * a" using assms(2) by (intro mult_left_mono) simp_all
    moreover have "0 \<le> \<bar>x1\<bar> * m" using m by simp
    ultimately show ?thesis using s by linarith
  qed
  have gg: "gcd m (a mod m) = gcd a0 m0"
    using g gcd_red_int [of a m] by simp
  show ?thesis
    unfolding inv_state_def using m d0 n0 sum sgn half gg
    by (simp add: mult.commute)
qed

lemma modInverse_loop_correct:
  assumes "inv_state a0 m0 a m x0 x1" "modInverse_loop a m x0 x1 = Inr r"
  shows "m0 dvd (r * a0 - 1) \<and> (2 * \<bar>r\<bar> \<le> m0 \<or> r = 1) \<and> gcd a0 m0 = 1"
  using assms
proof (induction a m x0 x1 rule: modInverse_loop.induct)
  case (1 a m x0 x1)
  show ?case
  proof (cases "1 < a")
    case True
    with 1(3) have m: "m \<noteq> 0"
      by (auto simp: modInverse_loop.simps [of a m x0 x1] split: if_splits)
    from 1(2) have a: "0 \<le> a" "0 \<le> m" by (auto simp: inv_state_def)
    have step: "inv_state a0 m0 m (big_rem a m) (x1 - big_div a m * x0) x0"
      using inv_state_step [OF 1(2) True m] a by simp
    have "modInverse_loop m (big_rem a m) (x1 - big_div a m * x0) x0 = Inr r"
      using 1(3) True m by (simp add: modInverse_loop.simps [of a m x0 x1] Let_def)
    from 1(1) [OF True m refl step this] show ?thesis .
  next
    case False
    with 1(3) have r: "r = x1" by (simp add: modInverse_loop.simps [of a m x0 x1])
    from 1(2) have inv: "0 < a" "m0 dvd (x1 * a0 - a)" "2 * \<bar>x1\<bar> \<le> m0 \<or> x1 = 1"
      "gcd a m = gcd a0 m0"
      by (auto simp: inv_state_def)
    from False inv(1) have "a = 1" by linarith
    with inv r show ?thesis by simp
  qed
qed

lemma modInverse_correct:
  assumes "0 < a" "1 < m" "modInverse a m = Inr r"
  shows "(a * r) mod m = 1 \<and> 0 < r \<and> r < m \<and> gcd a m = 1"
proof -
  from assms(2,3) obtain x1 where l: "modInverse_loop a m 0 1 = Inr x1"
    and r: "r = (if x1 < 0 then x1 + m else x1)"
    by (auto simp: modInverse_def bind_eq_Inr_iff)
  have "inv_state a m a m 0 1"
    using assms(1,2) by (simp add: inv_state_def)
  from modInverse_loop_correct [OF this l]
  have d: "m dvd (x1 * a - 1)" and h: "2 * \<bar>x1\<bar> \<le> m \<or> x1 = 1" and g: "gcd a m = 1"
    by simp_all
  have "m dvd (r * a - 1)"
  proof (cases "x1 < 0")
    case True
    then have eq: "r * a - 1 = (x1 * a - 1) + m * a" by (simp add: r algebra_simps)
    show ?thesis unfolding eq using d by (intro dvd_add) simp_all
  next
    case False
    with d show ?thesis by (simp add: r)
  qed
  then obtain t where t: "r * a - 1 = m * t" by (auto simp: dvd_def)
  then have "a * r = 1 + m * t" by (simp add: algebra_simps)
  then have one: "(a * r) mod m = 1" using assms(2) by simp
  have nz: "x1 \<noteq> 0"
  proof
    assume "x1 = 0"
    with d have "m dvd 1" by simp
    with assms(2) show False by simp
  qed
  have "0 < r \<and> r < m" using h nz assms(2) by (auto simp: r)
  with one g show ?thesis by simp
qed


section \<open>Bit lengths\<close>

lemma digits_rev_bounds:
  "0 < x \<Longrightarrow> 2 ^ length (digits_rev 2 x) \<le> 2 * x \<and> x < 2 ^ length (digits_rev 2 x)"
proof (induction x rule: less_induct)
  case (less x)
  show ?case
  proof (cases "x < 2")
    case True
    with less.prems have "x = 1" by simp
    then show ?thesis by (simp add: digits_rev.simps)
  next
    case False
    then have pos: "0 < x div 2" and lt: "x div 2 < x" by simp_all
    have len: "length (digits_rev 2 x) = Suc (length (digits_rev 2 (x div 2)))"
      using False by (simp add: digits_rev.simps [of 2 x])
    from less.IH [OF lt pos] show ?thesis
      unfolding len by (simp; linarith)
  qed
qed

lemma pow2_window_unique:
  fixes x :: nat
  assumes "2 ^ n \<le> 2 * x" "x < 2 ^ n" "2 ^ m \<le> 2 * x" "x < 2 ^ m"
  shows "n = m"
proof -
  have "(2::nat) ^ n < 2 ^ Suc m" using assms by simp
  then have a: "n < Suc m"
    by (simp only: power_strict_increasing_iff one_less_numeral_iff semiring_norm)
  have "(2::nat) ^ m < 2 ^ Suc n" using assms by simp
  then have b: "m < Suc n"
    by (simp only: power_strict_increasing_iff one_less_numeral_iff semiring_norm)
  from a b show ?thesis by simp
qed

lemma bitLength_eqI:
  assumes "2 ^ n \<le> 2 * x" "x < 2 ^ n" "0 < x"
  shows "bitLength x = n"
proof -
  let ?y = "nat \<bar>x\<bar>"
  have "int (2 ^ n) \<le> int (2 * ?y)" "int ?y < int (2 ^ n)"
    using assms by simp_all
  then have y: "0 < ?y" "2 ^ n \<le> 2 * ?y" "?y < 2 ^ n"
    using assms(3) by (simp_all only: of_nat_le_iff of_nat_less_iff)
  have "length (digits_rev 2 ?y) = n"
    using digits_rev_bounds [OF y(1)] y(2,3) by (meson pow2_window_unique)
  then show ?thesis using assms by (simp add: bitLength_def toStringRadix_def)
qed

section \<open>Evaluation of the key assembly on a small pair of safe primes\<close>

lemma replicate_numeral: "replicate (numeral k) x = x # replicate (pred_numeral k) x"
  by (simp add: numeral_eq_Suc)

lemmas eval_strings = toStringRadix_def digits_rev.simps digitChar_def bitLength_def

lemma ex_d: "modInverse 65537 400564 = Inr 395381"
  by (simp add: modInverse_def modInverse_loop.simps Let_def)

lemma ex_dBin: "toStringRadix 2 395381 = [49, 49, 48, 48, 48, 48, 48, 49, 48, 48, 48, 48, 49, 49, 49, 48, 49, 48, 49]"
  by (simp add: eval_strings)

lemma ex_dDec: "toStringRadix 10 395381 = [51,57,53,51,56,49]"
  by (simp add: eval_strings)

lemma ex_r4: "integerRoot 401881 4 = Inr 25"
  by (simp add: integerRoot_def integerRoot_loop.simps RSA_pow_def pow_loop.simps Let_def drop_bit_eq_div)

lemma ex_r10: "integerRoot 401881 10 = Inr 3"
  by (simp add: integerRoot_def integerRoot_loop.simps RSA_pow_def pow_loop.simps Let_def drop_bit_eq_div)

lemma ex_bl: "bitLength 401881 = 19" "bitLength 395381 = 19"
  by (simp_all add: eval_strings)

lemma ex_rp: "\<not> hasRepeatingPattern [51,57,53,51,56,49]"
  "\<not> hasRepeatingPattern [49, 49, 48, 48, 48, 48, 48, 49, 48, 48, 48, 48, 49, 49, 49, 48, 49, 48, 49]"
  by (simp_all add: hasRepeatingPattern_def hasRepeatingPattern_loop.simps startsWith_def replicate_numeral)

lemma ex_weak: "weak_exponent 395381 401881 = Inr False"
  by (simp add: weak_exponent_def ex_r4 ex_r10 ex_dBin ex_dDec ex_bl ex_rp nearestPowerOf2_def
      sliceLast_def Let_def)

lemma ex_qinv: "modInverse 839 479 = Inr 161"
  by (simp add: modInverse_def modInverse_loop.simps Let_def)

lemma ex_gcd: "RSA_gcd 65537 400564 = 1"
  by (simp add: RSA_gcd.simps)

lemma ex_keys: "generateKeys_from 479 839 = Inr (Some
    (\<lparr>pub_e = 65537, pub_n = 401881\<rparr>,
     \<lparr>priv_p = 479, priv_q = 839, priv_e = 65537, priv_d = 395381, priv_n = 401881,
        priv_phi = 400564, priv_dp = 75, priv_dq = 683, priv_qinv = 161\<rparr>))"
  by (simp add: generateKeys_from_def ex_gcd ex_d ex_weak forge_keys_def ex_qinv)

section \<open>The shape of a draw\<close>

text \<open>
  C8 (as amended).  For every generator and every draw width \<open>n \<ge> 2\<close>, \<open>nextBits(n)\<close>
  returns an odd integer congruent to 3 modulo 4 whose bit \<open>n - 1\<close> is set and whose
  binary representation has exactly \<open>n\<close> digits.
\<close>

theorem nextBits_shape:
  assumes "2 \<le> n" and "bbs_m g \<noteq> 0"
  shows "odd (fst (nextBits n g)) \<and> fst (nextBits n g) mod 4 = 3
       \<and> bit (fst (nextBits n g)) (n - 1) \<and> bitLength (fst (nextBits n g)) = n"
proof -
  obtain r0 g' where l: "nextBits_loop n 0 g = (r0, g')" by (cases "nextBits_loop n 0 g")
  have r0: "0 \<le> r0" "r0 < 2 ^ n"
    using nextBits_loop_bound [of 0 0 n g] l by simp_all
  define r1 where "r1 = r0 OR push_bit (n - 1) 1"
  define r2 where "r2 = r1 OR 1"
  define r3 where "r3 = r2 - big_rem r2 4 + 3"
  have res: "fst (nextBits n g) = r3"
    using assms(1) by (simp add: nextBits_def l r1_def r2_def r3_def Let_def)
  have p: "(2::int) ^ (n - 1) < 2 ^ n" "(0::int) \<le> 2 ^ (n - 1)" using assms(1) by simp_all
  have r1: "2 ^ (n - 1) \<le> r1" "r1 < 2 ^ n" "0 \<le> r1"
  proof -
    show "2 ^ (n - 1) \<le> r1"
      using or_greater_eq [of r0 "2 ^ (n - 1)"] r0(1)
      by (simp add: r1_def push_bit_eq_mult or.commute)
    show "r1 < 2 ^ n"
      using OR_upper [OF r0(1) r0(2) p(1)] by (simp add: r1_def push_bit_eq_mult)
    show "0 \<le> r1" using r0(1) by (simp add: r1_def push_bit_eq_mult)
  qed
  have two: "(2::int) ^ n = 2 * 2 ^ (n - 1)" using assms(1) by (cases n) simp_all
  have one: "(1::int) < 2 ^ n"
  proof -
    have "(1::int) \<le> 2 ^ (n - 1)" by simp
    then show ?thesis unfolding two by linarith
  qed
  have r2: "2 ^ (n - 1) \<le> r2" "r2 < 2 ^ n" "odd r2" "0 \<le> r2"
  proof -
    show "2 ^ (n - 1) \<le> r2" using r1(1) or_greater_eq [of 1 r1] by (simp add: r2_def)
    show "r2 < 2 ^ n" using OR_upper [OF r1(3) r1(2) one] by (simp add: r2_def)
    show "odd r2" by (simp add: r2_def even_or_iff)
    show "0 \<le> r2" using r1(3) by (simp add: r2_def)
  qed
  obtain K :: int where K: "2 ^ n = 4 * K"
  proof
    have "n = Suc (Suc (n - 2))" using assms(1) by simp
    then have "(2::int) ^ n = 2 ^ Suc (Suc (n - 2))" by simp
    then show "(2::int) ^ n = 4 * 2 ^ (n - 2)" by simp
  qed
  have r3_eq: "r3 = r2 - r2 mod 4 + 3" using r2(4) by (simp add: r3_def)
  have m4: "r2 mod 4 = 1 \<or> r2 mod 4 = 3" using r2(3) by presburger
  have r3: "2 ^ (n - 1) \<le> r3" "r3 < 2 ^ n" "odd r3" "r3 mod 4 = 3"
  proof -
    show "2 ^ (n - 1) \<le> r3" using r2(1) m4 unfolding r3_eq by linarith
    show "r3 < 2 ^ n" using r2(2) m4 unfolding r3_eq K by presburger
    show "odd r3" using r2(3) unfolding r3_eq by presburger
    show "r3 mod 4 = 3" unfolding r3_eq by presburger
  qed
  have "r3 div 2 ^ (n - 1) = 1"
  proof -
    have "r3 < 2 * 2 ^ (n - 1)" using r3(2) two by simp
    moreover have "(0::int) < 2 ^ (n - 1)" by simp
    ultimately show ?thesis using r3(1)
      by (simp add: div_pos_geq div_pos_pos_trivial)
  qed
  then have "bit r3 (n - 1)" by (simp add: bit_iff_odd)
  moreover have "bitLength r3 = n"
  proof (rule bitLength_eqI)
    show "2 ^ n \<le> 2 * r3" using r3(1) two by simp
    show "r3 < 2 ^ n" by (rule r3(2))
    have "(0::int) < 2 ^ (n - 1)" by simp
    then show "0 < r3" using r3(1) by linarith
  qed
  ultimately show ?thesis using r3 by (simp add: res)
qed

theorem nextBits_shape_witness:
  "(2::nat) \<le> 8
   \<and> bbs_m \<lparr> bbs_p = 499, bbs_q = 547, bbs_m = 272953, bbs_bits = 8, bbs_state = 2 \<rparr> \<noteq> 0
   \<and> odd (fst (nextBits 8 \<lparr> bbs_p = 499, bbs_q = 547, bbs_m = 272953, bbs_bits = 8, bbs_state = 2 \<rparr>))
   \<and> fst (nextBits 8 \<lparr> bbs_p = 499, bbs_q = 547, bbs_m = 272953, bbs_bits = 8, bbs_state = 2 \<rparr>) mod 4 = 3
   \<and> bit (fst (nextBits 8 \<lparr> bbs_p = 499, bbs_q = 547, bbs_m = 272953, bbs_bits = 8, bbs_state = 2 \<rparr>)) (8 - 1)
   \<and> bitLength (fst (nextBits 8 \<lparr> bbs_p = 499, bbs_q = 547, bbs_m = 272953, bbs_bits = 8, bbs_state = 2 \<rparr>)) = 8"
  using nextBits_shape [of 8 "\<lparr> bbs_p = 499, bbs_q = 547, bbs_m = 272953, bbs_bits = 8, bbs_state = 2 \<rparr>"]
  by simp

text \<open>
  The claim as stated fails at the draw width 1: no one-bit integer is congruent to 3
  modulo 4, and the draw is the two-bit integer 3.
\<close>

theorem nextBits_width_one_counterexample:
  "fst (nextBits 1 \<lparr> bbs_p = 499, bbs_q = 547, bbs_m = 272953, bbs_bits = 1, bbs_state = 2 \<rparr>) = 3
   \<and> bitLength (fst (nextBits 1 \<lparr> bbs_p = 499, bbs_q = 547, bbs_m = 272953, bbs_bits = 1, bbs_state = 2 \<rparr>)) \<noteq> 1"
  by (simp add: nextBits_def nextBit_def Let_def eval_strings)

section \<open>The primes of a key\<close>

text \<open>
  C1.  The search for a prime of the form \<open>2p + 1\<close> tests \<open>2p + 1\<close> only.  From the
  generator that \<open>new BlumBlumShub(2n, 3n, 3n, 8)\<close> builds, the first draw is 215 and the
  search returns 431, whose half \<open>(431 - 1) / 2 = 215 = 5 * 43\<close> is not prime: the returned
  number is not a safe prime.
\<close>

theorem findPrimeRSA_not_safe_prime:
  "new_BlumBlumShub 2 3 3 8 = Inr \<lparr> bbs_p = 3, bbs_q = 3, bbs_m = 9, bbs_bits = 8, bbs_state = 2 \<rparr>
   \<and> fst (findPrimeRSA True 10000
        \<lparr> rsa_bits = 8, rsa_prng = \<lparr> bbs_p = 3, bbs_q = 3, bbs_m = 9, bbs_bits = 8, bbs_state = 2 \<rparr> \<rparr>)
       = Inr 431
   \<and> (431 - 1) div 2 = (5::int) * 43"
proof -
  have "fst (nextBits 8 \<lparr> bbs_p = 3, bbs_q = 3, bbs_m = 9, bbs_bits = 8, bbs_state = 2 \<rparr>) = 215"
    by (simp add: nextBits_def nextBit_def Let_def eval_nat_numeral)
  moreover have "isPrimeMillerRabin 431 16"
    by (simp add: isPrimeMillerRabin_def mr_decompose.simps mr_outer.simps mr_inner.simps
        modPow_nz_def modPow_loop.simps mr_bases_def Let_def)
  ultimately have "fst (findPrimeRSA True 10000
        \<lparr> rsa_bits = 8, rsa_prng = \<lparr> bbs_p = 3, bbs_q = 3, bbs_m = 9, bbs_bits = 8, bbs_state = 2 \<rparr> \<rparr>)
       = Inr 431"
    by (simp add: findPrimeRSA_def findPrimeRSA_loop.simps [of 0] split_beta)
  then show ?thesis
    by (simp add: new_BlumBlumShub_def)
qed

section \<open>The invariants of an assembled key\<close>

text \<open>
  C7.  Whenever the body of the generation loop, run on two numbers \<open>p, q > 1\<close>, leaves the
  loop and assembles a key pair, the private key satisfies \<open>n = p q\<close>,
  \<open>\<phi> = (p - 1) (q - 1)\<close>, \<open>e d \<equiv> 1 (mod \<phi>)\<close>, \<open>dp = d mod (p - 1)\<close>, \<open>dq = d mod (q - 1)\<close>,
  \<open>q qinv \<equiv> 1 (mod p)\<close> and \<open>0 < qinv < p\<close>.  The inverse property of \<open>modInverse\<close> is proved
  from its loop, not assumed.
\<close>

theorem generateKeys_key_invariants:
  assumes "1 < p" "1 < q" "generateKeys_from p q = Inr (Some (pub, priv))"
  shows "priv_p priv = p \<and> priv_q priv = q \<and> priv_n priv = p * q
       \<and> pub_n pub = priv_n priv \<and> pub_e pub = priv_e priv
       \<and> priv_phi priv = (p - 1) * (q - 1)
       \<and> (priv_e priv * priv_d priv) mod priv_phi priv = 1 mod priv_phi priv
       \<and> priv_dp priv = priv_d priv mod (p - 1)
       \<and> priv_dq priv = priv_d priv mod (q - 1)
       \<and> (q * priv_qinv priv) mod p = 1 \<and> 0 < priv_qinv priv \<and> priv_qinv priv < p"
proof -
  let ?phi = "(p - 1) * (q - 1)"
  from assms(3) obtain d where d: "modInverse 65537 ?phi = Inr d"
    and f: "forge_keys p q 65537 d (p * q) ?phi = Inr (pub, priv)"
    by (auto simp: generateKeys_from_def Let_def bind_eq_Inr_iff split: if_splits)
  from f obtain qinv where qi: "modInverse q p = Inr qinv"
    and pub: "pub = \<lparr> pub_e = 65537, pub_n = p * q \<rparr>"
    and priv: "priv = \<lparr> priv_p = p, priv_q = q, priv_e = 65537, priv_d = d, priv_n = p * q,
        priv_phi = ?phi, priv_dp = big_rem d (p - 1), priv_dq = big_rem d (q - 1),
        priv_qinv = qinv \<rparr>"
    by (auto simp: forge_keys_def bind_eq_Inr_iff split: if_splits)
  have phi: "0 < ?phi" using assms(1,2) by simp
  have ed: "(65537 * d) mod ?phi = 1 mod ?phi \<and> 0 \<le> d"
  proof (cases "?phi = 1")
    case True
    with d show ?thesis by (simp add: modInverse_def)
  next
    case False
    with phi have "1 < ?phi" by linarith
    from modInverse_correct [OF _ this d] show ?thesis by simp
  qed
  from modInverse_correct [OF _ assms(1) qi] assms(2)
  have q: "(q * qinv) mod p = 1" "0 < qinv" "qinv < p" by simp_all
  show ?thesis
    using ed q assms(1,2) by (simp add: pub priv)
qed

theorem generateKeys_key_invariants_witness:
  "(1::int) < 479 \<and> (1::int) < 839
   \<and> generateKeys_from 479 839 = Inr (Some
       (\<lparr>pub_e = 65537, pub_n = 401881\<rparr>,
        \<lparr>priv_p = 479, priv_q = 839, priv_e = 65537, priv_d = 395381, priv_n = 401881,
           priv_phi = 400564, priv_dp = 75, priv_dq = 683, priv_qinv = 161\<rparr>))
   \<and> (65537 * 395381) mod 400564 = (1::int) mod 400564
   \<and> (75::int) = 395381 mod (479 - 1) \<and> (683::int) = 395381 mod (839 - 1)
   \<and> (839 * 161) mod 479 = (1::int) \<and> (0::int) < 161 \<and> (161::int) < 479"
  using generateKeys_key_invariants [OF _ _ ex_keys] ex_keys
  by simp

section \<open>Fermat's little theorem\<close>

lemma is_prime_gt1: "is_prime p \<Longrightarrow> 1 < p"
  by (simp add: is_prime_def)

lemma is_prime_divisors:
  assumes "is_prime p" "d dvd p" "0 \<le> d"
  shows "d = 1 \<or> d = p"
proof (rule ccontr)
  assume n: "\<not> (d = 1 \<or> d = p)"
  from assms(1) have p: "1 < p" by (rule is_prime_gt1)
  from assms(2) p have "d \<le> p" by (simp add: zdvd_imp_le)
  moreover from assms(2) p have "d \<noteq> 0" by auto
  ultimately have "d \<in> {2..<p}" using n assms(3) by auto
  with assms(1,2) show False by (auto simp: is_prime_def)
qed

lemma is_prime_coprime:
  assumes "is_prime p" "\<not> p dvd a"
  shows "coprime p a"
proof -
  have "gcd p a dvd p" "0 \<le> gcd p a" by simp_all
  from is_prime_divisors [OF assms(1) this] have "gcd p a = 1 \<or> gcd p a = p" .
  moreover have "gcd p a \<noteq> p"
  proof
    assume "gcd p a = p"
    then have "p dvd a" by (metis gcd_dvd2)
    with assms(2) show False by simp
  qed
  ultimately show ?thesis by (simp add: coprime_iff_gcd_eq_1)
qed

lemma is_prime_dvd_mult:
  assumes "is_prime p" "p dvd a * b"
  shows "p dvd a \<or> p dvd b"
proof (cases "p dvd a")
  case False
  from is_prime_coprime [OF assms(1) this] assms(2) show ?thesis
    by (simp add: coprime_dvd_mult_right_iff)
qed simp

lemma is_prime_dvd_binomial:
  assumes "is_prime p" "0 < k" "k < nat p"
  shows "p dvd int (nat p choose k)"
proof -
  from assms(1) have p: "1 < p" by (rule is_prime_gt1)
  have "k * (nat p choose k) = nat p * ((nat p - 1) choose (k - 1))"
    using assms(2) by (rule times_binomial_minus1_eq)
  then have "int k * int (nat p choose k) = int (nat p) * int ((nat p - 1) choose (k - 1))"
    by (metis of_nat_mult)
  then have "p dvd int k * int (nat p choose k)" using p by simp
  moreover have "\<not> p dvd int k"
    using assms(2,3) by (auto dest!: zdvd_imp_le)
  ultimately show ?thesis using is_prime_dvd_mult [OF assms(1)] by blast
qed

lemma fermat_step:
  assumes "is_prime p"
  shows "p dvd (a + 1) ^ nat p - a ^ nat p - (1::int)"
proof -
  let ?P = "nat p"
  from assms have p: "1 < p" by (rule is_prime_gt1)
  then have P: "1 < ?P" by simp
  let ?f = "\<lambda>k. int (?P choose k) * a ^ k"
  have "(a + 1) ^ ?P = (\<Sum>k\<le>?P. ?f k)"
    using binomial_ring [of a 1 ?P] by simp
  also have "{..?P} = insert 0 (insert ?P {0<..<?P})" using P by auto
  also have "(\<Sum>k\<in>insert 0 (insert ?P {0<..<?P}). ?f k) = ?f 0 + (?f ?P + (\<Sum>k\<in>{0<..<?P}. ?f k))"
    using P by simp
  finally have "(a + 1) ^ ?P - a ^ ?P - 1 = (\<Sum>k\<in>{0<..<?P}. ?f k)" by simp
  moreover have "p dvd (\<Sum>k\<in>{0<..<?P}. ?f k)"
  proof (rule dvd_sum)
    fix k assume "k \<in> {0<..<?P}"
    then have "p dvd int (?P choose k)" using is_prime_dvd_binomial [OF assms] by simp
    then show "p dvd ?f k" by simp
  qed
  ultimately show ?thesis by simp
qed

lemma fermat_nat:
  assumes "is_prime p"
  shows "p dvd int a ^ nat p - int a"
proof (induction a)
  case 0
  from assms have "0 < nat p" by (simp add: is_prime_def)
  then show ?case by (simp add: power_0_left)
next
  case (Suc a)
  have eq: "int (Suc a) ^ nat p - int (Suc a)
      = ((int a + 1) ^ nat p - int a ^ nat p - 1) + (int a ^ nat p - int a)"
    by (simp add: algebra_simps)
  show ?case
    unfolding eq by (intro dvd_add fermat_step [OF assms] Suc)
qed

lemma fermat_little:
  assumes "is_prime p" "\<not> p dvd a" "0 \<le> a"
  shows "p dvd a ^ nat (p - 1) - 1"
proof -
  from assms(1) have p: "1 < p" by (rule is_prime_gt1)
  from fermat_nat [OF assms(1), of "nat a"] assms(3) have "p dvd a ^ nat p - a" by simp
  moreover have "nat p = Suc (nat (p - 1))" using p by simp
  ultimately have "p dvd a * (a ^ nat (p - 1) - 1)" by (simp add: algebra_simps)
  with is_prime_dvd_mult [OF assms(1)] assms(2) show ?thesis by blast
qed


section \<open>Correctness of the square-and-multiply loop\<close>

lemma modPow_loop_eq:
  assumes "0 < m" "0 \<le> r" "0 \<le> b" "0 < e"
  shows "modPow_loop r b e m = (r * b ^ nat e) mod m"
  using assms
proof (induction r b e m rule: modPow_loop.induct)
  case (1 r b e m)
  let ?r' = "if big_rem e 2 = 1 then big_rem (r * b) m else r"
  let ?b' = "big_rem (b * b) m"
  have r': "?r' = (if odd e then (r * b) mod m else r)" "0 \<le> ?r'"
    using 1(2-5) by (auto simp: odd_iff_mod_2_eq_one)
  have b': "?b' = (b * b) mod m" "0 \<le> ?b'" using 1(2-5) by simp_all
  have e': "big_div e 2 = e div 2" using 1(5) by simp
  have unfold: "modPow_loop r b e m = modPow_loop ?r' ?b' (e div 2) m"
    using 1(5) by (subst modPow_loop.simps) (simp add: e')
  have ne: "nat e = 2 * nat (e div 2) + (if odd e then 1 else 0)"
    using 1(5) by (auto simp: nat_add_distrib nat_mult_distrib elim!: oddE evenE)
  have pw: "b ^ nat e = (b * b) ^ nat (e div 2) * (if odd e then b else 1)"
    by (subst ne) (simp add: power_add power_mult power2_eq_square)
  show ?case
  proof (cases "0 < e div 2")
    case True
    have "modPow_loop ?r' ?b' (big_div e 2) m = (?r' * ?b' ^ nat (big_div e 2)) mod m"
      using 1(1) [OF 1(5) 1(2) r'(2) b'(2)] True e' by simp
    then have "modPow_loop r b e m = (?r' * ?b' ^ nat (e div 2)) mod m"
      using unfold e' by simp
    also have "\<dots> = (?r' mod m * (((b * b) mod m) ^ nat (e div 2) mod m)) mod m"
      unfolding b'(1) by (simp add: mod_mult_eq)
    also have "\<dots> = (?r' mod m * ((b * b) ^ nat (e div 2) mod m)) mod m"
      by (simp add: power_mod)
    also have "\<dots> = (?r' * (b * b) ^ nat (e div 2)) mod m"
      by (simp add: mod_mult_eq)
    also have "\<dots> = (r * b ^ nat e) mod m"
    proof (cases "odd e")
      case True
      have "((r * b) mod m * (b * b) ^ nat (e div 2)) mod m = (r * b * (b * b) ^ nat (e div 2)) mod m"
        by (simp add: mod_mult_left_eq)
      with True show ?thesis unfolding r'(1) pw by (simp add: mult_ac)
    next
      case False
      then show ?thesis unfolding r'(1) pw by simp
    qed
    finally show ?thesis .
  next
    case False
    with 1(5) have e1: "e = 1" by presburger
    have "modPow_loop r b e m = ?r'"
      unfolding unfold using False by (subst modPow_loop.simps) simp
    then show ?thesis using e1 r'(1) by simp
  qed
qed

lemma modPow_eq:
  assumes "0 < m" "0 \<le> c" "0 < e"
  shows "modPow c e m = Inr (c ^ nat e mod m)"
proof -
  have "modPow_loop 1 (c mod m) e m = (1 * (c mod m) ^ nat e) mod m"
    using assms by (intro modPow_loop_eq) simp_all
  then show ?thesis using assms by (simp add: modPow_def power_mod)
qed

lemma modPow_zero_exp: "m \<noteq> 0 \<Longrightarrow> e \<le> 0 \<Longrightarrow> modPow c e m = Inr 1"
  by (simp add: modPow_def modPow_loop.simps)

lemma is_prime_distinct_coprime:
  assumes "is_prime p" "is_prime q" "p \<noteq> q"
  shows "coprime p q"
proof (rule is_prime_coprime [OF assms(1)])
  show "\<not> p dvd q"
  proof
    assume "p dvd q"
    from is_prime_divisors [OF assms(2) this] is_prime_gt1 [OF assms(1)] assms(3)
    show False by auto
  qed
qed

lemma power_cong_one:
  fixes a :: int
  assumes "m dvd a ^ k - 1"
  shows "m dvd a ^ (k * j) - 1"
proof (induction j)
  case 0
  show ?case by simp
next
  case (Suc j)
  have eq: "a ^ (k * Suc j) - 1 = a ^ (k * j) * (a ^ k - 1) + (a ^ (k * j) - 1)"
    by (simp add: power_add algebra_simps)
  show ?case
    unfolding eq by (intro dvd_add dvd_mult assms Suc)
qed

lemma euler_two_primes:
  assumes "is_prime p" "is_prime q" "p \<noteq> q" "coprime c (p * q)" "0 \<le> c"
  shows "p * q dvd c ^ nat ((p - 1) * (q - 1)) - 1"
proof -
  have p: "1 < p" and q: "1 < q" using assms(1,2) by (simp_all add: is_prime_gt1)
  have cp: "\<not> p dvd c"
  proof
    assume "p dvd c"
    then have "p dvd gcd c (p * q)" by simp
    with assms(4) p show False by (simp add: coprime_iff_gcd_eq_1)
  qed
  have cq: "\<not> q dvd c"
  proof
    assume "q dvd c"
    then have "q dvd gcd c (p * q)" by simp
    with assms(4) q show False by (simp add: coprime_iff_gcd_eq_1)
  qed
  have e: "nat ((p - 1) * (q - 1)) = nat (p - 1) * nat (q - 1)"
    using p q by (simp add: nat_mult_distrib)
  have "p dvd c ^ (nat (p - 1) * nat (q - 1)) - 1"
    by (rule power_cong_one [OF fermat_little [OF assms(1) cp assms(5)]])
  moreover have "q dvd c ^ (nat (q - 1) * nat (p - 1)) - 1"
    by (rule power_cong_one [OF fermat_little [OF assms(2) cq assms(5)]])
  ultimately show ?thesis
    unfolding e using is_prime_distinct_coprime [OF assms(1-3)]
    by (simp add: divides_mult mult.commute)
qed


section \<open>Exponent blinding\<close>

lemma valid_key_facts:
  assumes "valid_private_key k"
  shows "1 < priv_n k" "0 < priv_phi k"
proof -
  from assms have "2 < priv_p k" "2 < priv_q k" "priv_n k = priv_p k * priv_q k"
    "priv_phi k = (priv_p k - 1) * (priv_q k - 1)"
    by (simp_all add: valid_private_key_def)
  then show "1 < priv_n k" "0 < priv_phi k"
    by (simp_all add: less_1_mult)
qed

lemma small_primes: "is_prime 7" "is_prime 11"
  by code_simp+

lemma toy_key_valid: "valid_private_key toy_key"
  by (simp add: valid_private_key_def toy_key_def small_primes)

text \<open>
  C6.  For a valid private key, a ciphertext \<open>c \<ge> 0\<close> coprime to \<open>n\<close> and a blinding value
  \<open>r \<ge> 0\<close>, \<open>modPow(c, d + r \<phi>, n) = modPow(c, d, n)\<close>: the blinded private operation
  computes the integer of the naive one.
\<close>

theorem blinding_preserves_plaintext:
  assumes "valid_private_key k" "0 \<le> c" "coprime c (priv_n k)" "0 \<le> r"
  shows "blinded_exponentiation k r c = private_exponentiation k c"
proof -
  let ?n = "priv_n k" and ?phi = "priv_phi k" and ?d = "priv_d k"
  from assms(1) have v: "is_prime (priv_p k)" "is_prime (priv_q k)" "priv_p k \<noteq> priv_q k"
    "?n = priv_p k * priv_q k" "?phi = (priv_p k - 1) * (priv_q k - 1)" "0 < ?d"
    by (simp_all add: valid_private_key_def)
  have n: "1 < ?n" and phi: "0 < ?phi" using valid_key_facts [OF assms(1)] by simp_all
  have rphi: "0 \<le> r * ?phi" using assms(4) phi by simp
  have "?n dvd c ^ nat ?phi - 1"
    using euler_two_primes [OF v(1-3) _ assms(2)] assms(3) v(4,5) by simp
  then have one: "?n dvd c ^ (nat ?phi * nat r) - 1" by (rule power_cong_one)
  have ex: "nat (?d + r * ?phi) = nat ?d + nat ?phi * nat r"
    using v(6) assms(4) phi rphi by (simp add: nat_add_distrib nat_mult_distrib mult.commute)
  have "c ^ nat (?d + r * ?phi) - c ^ nat ?d = c ^ nat ?d * (c ^ (nat ?phi * nat r) - 1)"
    unfolding ex by (simp add: power_add algebra_simps)
  then have "?n dvd c ^ nat (?d + r * ?phi) - c ^ nat ?d" using one by simp
  then have "c ^ nat (?d + r * ?phi) mod ?n = c ^ nat ?d mod ?n"
    by (simp add: mod_eq_dvd_iff)
  moreover have "0 < ?d + r * ?phi" using v(6) rphi by linarith
  ultimately show ?thesis
    using n assms(2) v(6)
    by (simp add: blinded_exponentiation_def private_exponentiation_def modPow_eq)
qed

theorem blinding_preserves_plaintext_witness:
  "valid_private_key toy_key \<and> (0::int) \<le> 5 \<and> coprime (5::int) (priv_n toy_key) \<and> (0::int) \<le> 3
   \<and> blinded_exponentiation toy_key 3 5 = private_exponentiation toy_key 5"
proof -
  have c: "coprime (5::int) (priv_n toy_key)"
    unfolding toy_key_def by code_simp
  from blinding_preserves_plaintext [OF toy_key_valid _ c, of 3] toy_key_valid c
  show ?thesis by simp
qed

section \<open>The digest\<close>

lemma sha256_pad_all: "P 0 \<Longrightarrow> list_all P (sha256_pad s) = list_all P s"
proof (induction s rule: sha256_pad.induct)
  case (1 ascii)
  show ?case
  proof (cases "length ascii mod 64 = 56")
    case True
    then show ?thesis by (subst sha256_pad.simps) simp
  next
    case False
    have eq: "sha256_pad ascii = sha256_pad (ascii @ [0])"
      using False by (subst sha256_pad.simps) simp
    show ?thesis
      unfolding eq using 1(1) [OF False 1(2)] 1(2) by simp
  qed
qed

lemma sha256_words_None:
  "sha256_words i cs ws = None \<longleftrightarrow> \<not> list_all (\<lambda>c. c < 256) cs"
proof (induction cs arbitrary: i ws)
  case Nil
  show ?case by simp
next
  case (Cons c cs)
  have "drop_bit 8 c \<noteq> 0 \<longleftrightarrow> \<not> c < 256"
    by (cases "c < 256") (simp_all add: drop_bit_eq_div div_greater_zero_iff)
  then show ?case using Cons by simp
qed

lemma hexByte_eq:
  assumes "b < 256"
  shows "hexByte b = [digitChar (b div 16), digitChar (b mod 16)]"
proof (cases "b < 16")
  case True
  then show ?thesis
    by (simp add: hexByte_def toStringRadix_def digits_rev.simps [of 16 b] digitChar_def)
next
  case False
  have "b div 16 < 16" using assms by simp
  then have "digits_rev 16 b = [b mod 16, b div 16]"
    using False by (simp add: digits_rev.simps [of 16 b] digits_rev.simps [of 16 "b div 16"])
  with False show ?thesis
    by (simp add: hexByte_def toStringRadix_def)
qed

lemma digitChar_hex: "d < 16 \<Longrightarrow> isHexDigit (digitChar d)"
  by (auto simp: isHexDigit_def digitChar_def)

lemma unat_and_255: "unat ((w :: word32) AND 255) < 256"
proof -
  have "unat (w AND 255) \<le> unat (255 :: word32)"
    by (rule word_and_le1 [THEN word_le_nat_alt [THEN iffD1]])
  then show ?thesis by simp
qed

lemma hexByte_word:
  "length (hexByte (unat ((w :: word32) AND 255))) = 2"
  "list_all isHexDigit (hexByte (unat ((w :: word32) AND 255)))"
  using unat_and_255 [of w] by (simp_all add: hexByte_eq digitChar_hex)

lemma sha256_hex_shape: "length (sha256_hex hash) = 64" "list_all isHexDigit (sha256_hex hash)"
proof -
  show "length (sha256_hex hash) = 64"
    by (simp add: sha256_hex_def length_concat hexByte_word comp_def map_replicate_const
        sum_list_replicate)
  show "list_all isHexDigit (sha256_hex hash)"
    using hexByte_word(2) [unfolded list_all_iff]
    by (auto simp: sha256_hex_def list_all_iff)
qed

text \<open>
  C10.  \<open>Hash.sha256\<close> is partial: on a string all of whose code units are at most 255
  it returns a digest of 64 hexadecimal characters; on a string with a code unit above 255
  it returns \<open>undefined\<close>.
\<close>

theorem sha256_partial:
  "(list_all (\<lambda>c. c \<le> 255) ascii \<longrightarrow>
      (\<exists>digest. sha256 ascii = Some digest \<and> length digest = 64 \<and> list_all isHexDigit digest))
   \<and> (\<not> list_all (\<lambda>c. c \<le> 255) ascii \<longrightarrow> sha256 ascii = None)"
proof -
  have le: "(\<lambda>c::nat. c \<le> 255) = (\<lambda>c. c < 256)" by auto
  have "list_all (\<lambda>c. c < 256) (sha256_pad (ascii @ [128])) = list_all (\<lambda>c. c < 256) ascii"
    by (simp add: sha256_pad_all)
  then have none: "sha256_words 0 (sha256_pad (ascii @ [128])) [] = None
      \<longleftrightarrow> \<not> list_all (\<lambda>c. c \<le> 255) ascii"
    by (simp add: sha256_words_None le)
  show ?thesis
  proof (cases "sha256_words 0 (sha256_pad (ascii @ [128])) []")
    case None
    with none show ?thesis by (simp add: sha256_def sha256_of_def)
  next
    case (Some ws)
    with none have "list_all (\<lambda>c. c \<le> 255) ascii" by simp
    with Some show ?thesis by (simp add: sha256_def sha256_of_def Let_def sha256_hex_shape)
  qed
qed

theorem sha256_partial_witness:
  "list_all (\<lambda>c. c \<le> 255) [97, 98, 99 :: nat]
   \<and> (\<exists>digest. sha256 [97, 98, 99] = Some digest \<and> length digest = 64 \<and> list_all isHexDigit digest)
   \<and> \<not> list_all (\<lambda>c. c \<le> 255) [8364 :: nat]
   \<and> sha256 [8364] = None"
  using sha256_partial [of "[97, 98, 99]"] sha256_partial [of "[8364]"]
  by simp

section \<open>Decoding a key\<close>

text \<open>
  C5.  The blob \<open>{"n": "77n", "e": "65537n"}\<close> decodes to BigInt fields, and
  \<open>parseWithBigInt\<close> reads the plain form \<open>{"n": "77", "e": "65537"}\<close> to the same object.
  \<open>decodeKeyBase64\<close>, the decoder every operation of the class calls, leaves the plain form
  as it is: its fields stay strings.
\<close>

theorem decodeKeyBase64_plain_decimal:
  "decodeKeyBase64 (public_blob [55, 55, 110] [54, 53, 53, 51, 55, 110])
     = (JObject [([110], JBigInt 77), ([101], JBigInt 65537)] :: unit json)
   \<and> parseWithBigInt (public_blob [55, 55] [54, 53, 53, 51, 55])
     = (JObject [([110], JBigInt 77), ([101], JBigInt 65537)] :: unit json)
   \<and> decodeKeyBase64 (public_blob [55, 55] [54, 53, 53, 51, 55])
     = (JObject [([110], JString [55, 55]), ([101], JString [54, 53, 53, 51, 55])] :: unit json)"
  by (simp add: decodeKeyBase64_def parseWithBigInt_def public_blob_def decodeKey_reviver_def
      parseWithBigInt_reviver_def isTaggedDigits_def isDigits_def parseDecimal_def)

section \<open>Hashes of hexadecimal strings and the mask generation function\<close>

lemma sha256_of_None: "sha256_of len str = None \<longleftrightarrow> \<not> list_all (\<lambda>c. c \<le> 255) str"
proof -
  have le: "(\<lambda>c::nat. c \<le> 255) = (\<lambda>c. c < 256)" by auto
  have "list_all (\<lambda>c. c < 256) (sha256_pad (str @ [128])) = list_all (\<lambda>c. c < 256) str"
    by (simp add: sha256_pad_all)
  then have "sha256_words 0 (sha256_pad (str @ [128])) [] = None
      \<longleftrightarrow> \<not> list_all (\<lambda>c. c \<le> 255) str"
    by (simp add: sha256_words_None le)
  then show ?thesis
    by (cases "sha256_words 0 (sha256_pad (str @ [128])) []") (simp_all add: sha256_of_def Let_def)
qed

lemma sha256_of_Some:
  assumes "sha256_of len str = Some d"
  shows "length d = 64" "list_all isHexDigit d"
  using assms by (auto simp: sha256_of_def Let_def sha256_hex_shape split: option.splits)

lemma hexValue_hex: "isHexDigit c \<Longrightarrow> \<exists>v. hexValue c = Some v"
  by (auto simp: isHexDigit_def hexValue_def)

lemma fromHex_length: "list_all isHexDigit s \<Longrightarrow> length (fromHex s) = length s div 2"
proof (induction s rule: fromHex.induct)
  case (1 c1 c2 cs)
  then obtain h l where "hexValue c1 = Some h" "hexValue c2 = Some l"
    using hexValue_hex [of c1] hexValue_hex [of c2] by auto
  with 1 show ?case by simp
qed simp_all

lemma byteHex_hex: "list_all isHexDigit (byteHex b)"
proof -
  have "unat b < 256" using unsigned_less [of b] by simp
  then have "unat b div 16 < 16" by simp
  then show ?thesis by (simp add: byteHex_def digitChar_hex)
qed

lemma toHex_hex: "list_all isHexDigit (toHex buf)"
  by (induction buf) (simp_all add: toHex_def byteHex_hex)

lemma isHexDigit_le: "isHexDigit c \<Longrightarrow> c \<le> 255"
  by (auto simp: isHexDigit_def)

lemma sha256_hex_string:
  assumes "list_all isHexDigit s"
  shows "\<exists>h. bufferFromHex (sha256 s) = Inr h \<and> length h = 32"
proof -
  from assms have "list_all (\<lambda>c. c \<le> 255) s"
    by (auto simp: list_all_iff isHexDigit_le)
  then obtain d where d: "sha256 s = Some d"
    using sha256_of_None [of "length s" s] by (auto simp: sha256_def)
  from sha256_of_Some [OF d [unfolded sha256_def]] have "length (fromHex d) = 32"
    by (simp add: fromHex_length)
  with d show ?thesis by (simp add: bufferFromHex_def)
qed

lemma MGF1_blocks_ok:
  "\<exists>T. MGF1_blocks i count seed = Inr T \<and> length T = 32 * (count - i)"
proof (induction i count seed rule: MGF1_blocks.induct)
  case (1 i count seed)
  show ?case
  proof (cases "i < count")
    case True
    obtain h where h: "bufferFromHex (sha256 (toHex (seed @ I2OSP (int i) 4))) = Inr h"
      "length h = 32"
      using sha256_hex_string [OF toHex_hex] by blast
    from 1 [OF True] obtain T where T: "MGF1_blocks (i + 1) count seed = Inr T"
      "length T = 32 * (count - (i + 1))" by blast
    have "MGF1_blocks i count seed = Inr (h @ T)"
      using True h(1) T(1) by (subst MGF1_blocks.simps) simp
    moreover have "length (h @ T) = 32 * (count - i)" using True h(2) T(2) by simp
    ultimately show ?thesis by blast
  next
    case False
    then show ?thesis by (subst MGF1_blocks.simps) simp
  qed
qed

lemma MGF1_ok: "\<exists>mask. MGF1 seed n = Inr mask \<and> length mask = n"
proof -
  obtain T where T: "MGF1_blocks 0 ((n + 31) div 32) seed = Inr T"
    "length T = 32 * ((n + 31) div 32 - 0)"
    using MGF1_blocks_ok by blast
  have "n \<le> length T" using T(2) by simp
  with T(1) show ?thesis by (simp add: MGF1_def)
qed

lemma getSeed_loop_length: "length (getSeed_loop sb hLen rng) = hLen"
proof (induction sb hLen rng rule: getSeed_loop.induct)
  case (1 seedBytes hLen rng)
  show ?case
  proof (cases "length seedBytes < hLen")
    case True
    obtain rand rng' where n: "nextNumber rng = (rand, rng')" by (cases "nextNumber rng")
    from 1 [OF True n [symmetric] refl] True n show ?thesis
      by (subst getSeed_loop.simps) simp
  next
    case False
    then show ?thesis by (subst getSeed_loop.simps) simp
  qed
qed

lemma xorN_length [simp]: "length (xorN n a b) = n"
  by (simp add: xorN_def)

lemma nextBits_loop_nonneg: "0 \<le> acc \<Longrightarrow> 0 \<le> fst (nextBits_loop i acc g)"
  by (induction i arbitrary: acc g) (simp_all add: nextBit_def Let_def split_beta)

lemma nextBits_pos: "0 < fst (nextBits n g)"
proof -
  obtain r0 g' where l: "nextBits_loop n 0 g = (r0, g')" by (cases "nextBits_loop n 0 g")
  with nextBits_loop_nonneg [of 0 n g] have r0: "0 \<le> r0" by simp
  define r2 where "r2 = (r0 OR (if n = 0 then 0 else push_bit (n - 1) 1)) OR 1"
  have "0 \<le> r2" using r0 by (simp add: r2_def)
  then have "r2 mod 4 \<le> r2" "big_rem r2 4 = r2 mod 4"
    by (simp_all add: big_rem_def sgn_if zmod_le_nonneg_dividend)
  then have "0 < r2 - big_rem r2 4 + 3" by simp
  then show ?thesis by (simp add: nextBits_def l r2_def Let_def)
qed

lemma generatePrime3Mod4_loop_cases:
  "(\<exists>c. generatePrime3Mod4_loop tries maxTries seed bits = Inr c \<and> 0 < c)
   \<or> generatePrime3Mod4_loop tries maxTries seed bits
       = Inl (Thrown ''Echec : impossible de generer un premier 3 mod 4'')"
proof (induction tries maxTries seed bits rule: generatePrime3Mod4_loop.induct)
  case (1 tries maxTries seed bits)
  show ?case
  proof (cases "tries < maxTries")
    case False
    then show ?thesis by (subst (1 2) generatePrime3Mod4_loop.simps) simp
  next
    case True
    define prng where "prng = \<lparr> bbs_p = 499, bbs_q = 547, bbs_m = 499 * 547, bbs_bits = bits,
        bbs_state = (let s = big_rem (seed + int tries) (499 * 547) in if s = 0 then 1 else s) \<rparr>"
    have n: "new_BlumBlumShub (seed + int tries) 499 547 bits = Inr prng"
      by (simp add: new_BlumBlumShub_def prng_def)
    define candidate where "candidate = fst (nextBits bits prng)"
    have pos: "0 < candidate" unfolding candidate_def by (rule nextBits_pos)
    show ?thesis
    proof (cases "isPrimeMillerRabin candidate 16 \<and> big_rem candidate 4 = 3")
      case ok: True
      have "generatePrime3Mod4_loop tries maxTries seed bits = Inr candidate"
        using True n ok by (subst generatePrime3Mod4_loop.simps) (simp add: candidate_def)
      with pos show ?thesis by simp
    next
      case no: False
      have "generatePrime3Mod4_loop tries maxTries seed bits
          = generatePrime3Mod4_loop (tries + 1) maxTries seed bits"
        using True n no by (subst generatePrime3Mod4_loop.simps) (auto simp: candidate_def)
      moreover have "(\<exists>c. generatePrime3Mod4_loop (tries + 1) maxTries seed bits = Inr c \<and> 0 < c)
          \<or> generatePrime3Mod4_loop (tries + 1) maxTries seed bits
              = Inl (Thrown ''Echec : impossible de generer un premier 3 mod 4'')"
        using no by (intro 1 [OF True, of candidate prng]) (simp_all add: candidate_def)
      ultimately show ?thesis by simp
    qed
  qed
qed

lemma initPRNG_cases:
  "(\<exists>rng. initPRNG (2 * b) ent = Inr rng)
   \<or> initPRNG (2 * b) ent = Inl (Thrown ''Echec : impossible de generer un premier 3 mod 4'')"
proof -
  obtain o59 o47 o31 where ent: "ent = (o59, o47, o31)" by (cases ent)
  let ?E = "Inl (Thrown ''Echec : impossible de generer un premier 3 mod 4'') :: int result"
  consider (a) "generatePrimes3Mod4 (reseed o59) b = ?E"
    | (b) p where "generatePrimes3Mod4 (reseed o59) b = Inr p" "0 < p"
        "generatePrimes3Mod4 (reseed o47) b = ?E"
    | (c) p q where "generatePrimes3Mod4 (reseed o59) b = Inr p" "0 < p"
        "generatePrimes3Mod4 (reseed o47) b = Inr q" "0 < q"
    using generatePrime3Mod4_loop_cases [of 0 1000 "reseed o59" b]
      generatePrime3Mod4_loop_cases [of 0 1000 "reseed o47" b]
    unfolding generatePrimes3Mod4_def by blast
  then show ?thesis
  proof cases
    case a
    then show ?thesis by (simp add: initPRNG_def ent)
  next
    case b
    then show ?thesis by (simp add: initPRNG_def ent)
  next
    case c
    then show ?thesis by (simp add: initPRNG_def ent new_BlumBlumShub_def)
  qed
qed

section \<open>The OAEP encoding\<close>

lemma OAEPEncode_returns:
  assumes long: "\<not> int k - int (length (utf8_encode message)) - 2 * 32 - 2 < 0"
    and label: "sha256_buffer label = Some d"
    and rng: "initPRNG 64 ent = Inr rng"
  shows "\<exists>EM. OAEPEncode message label k ent = Inr EM \<and> length EM = k \<and> EM ! 0 = 0"
proof -
  let ?m = "utf8_encode message"
  from sha256_of_Some [OF label [unfolded sha256_buffer_def]]
  have lh: "length (fromHex d) = 32" by (simp add: fromHex_length)
  let ?seed = "getSeedFromBBS rng 32"
  let ?DB = "fromHex d @ replicate (nat (int k - int (length ?m) - 2 * 32 - 2)) 0 @ [1] @ ?m"
  obtain dbMask where m1: "MGF1 ?seed (k - 32 - 1) = Inr dbMask" using MGF1_ok by blast
  obtain seedMask where m2: "MGF1 (xorN (length ?DB) ?DB dbMask) 32 = Inr seedMask"
    using MGF1_ok by blast
  have len: "length ?DB = k - 33" using long lh by simp
  have "OAEPEncode message label k ent
      = Inr ([0] @ xorN 32 ?seed seedMask @ xorN (length ?DB) ?DB dbMask)"
    using long label rng m1 m2 by (simp add: OAEPEncode_def Let_def bufferFromHex_def)
  moreover have "length ([0] @ xorN 32 ?seed seedMask @ xorN (length ?DB) ?DB dbMask) = k"
    using long unfolding len by simp
  ultimately show ?thesis by simp
qed

section \<open>Proth's theorem\<close>










section \<open>The RSA permutation\<close>









section \<open>Integers and their bytes\<close>

lemma hexValue_digitChar: "d < 16 \<Longrightarrow> hexValue (digitChar d) = Some d"
  by (auto simp: hexValue_def digitChar_def)

lemma parseHex_snoc: "parseHex (s @ [c]) = 16 * parseHex s + int (case hexValue c of Some v \<Rightarrow> v | None \<Rightarrow> 0)"
  by (simp add: parseHex_def)

lemma parseHex_byteHex: "parseHex (s @ byteHex x) = 256 * parseHex s + uint x"
proof -
  have "unat x < 256" using unsigned_less [of x] by simp
  then have d: "unat x div 16 < 16" "unat x mod 16 < 16" by simp_all
  have "parseHex (s @ byteHex x) = parseHex ((s @ [digitChar (unat x div 16)]) @ [digitChar (unat x mod 16)])"
    by (simp add: byteHex_def)
  also have "\<dots> = 16 * (16 * parseHex s + int (unat x div 16)) + int (unat x mod 16)"
    unfolding parseHex_snoc by (simp add: hexValue_digitChar d)
  finally have 1: "parseHex (s @ byteHex x)
      = 16 * (16 * parseHex s + int (unat x div 16)) + int (unat x mod 16)" .
  have "int (unat x) = int (unat x div 16 * 16 + unat x mod 16)" by (simp only: div_mult_mod_eq)
  also have "\<dots> = int (unat x div 16) * 16 + int (unat x mod 16)"
    by (simp only: of_nat_add of_nat_mult of_nat_numeral)
  finally have u: "uint x = int (unat x div 16) * 16 + int (unat x mod 16)" by simp
  show ?thesis unfolding 1 u by (simp only: algebra_simps)
qed

lemma parseHex_toHex_append:
  "parseHex (s @ toHex buf) = parseHex s * 256 ^ length buf + parseHex (toHex buf)
   \<and> 0 \<le> parseHex (toHex buf) \<and> parseHex (toHex buf) < 256 ^ length buf"
proof (induction buf arbitrary: s)
  case Nil
  show ?case by (simp add: toHex_def parseHex_def)
next
  case (Cons x xs)
  have t: "toHex (x # xs) = byteHex x @ toHex xs" by (simp add: toHex_def)
  have 1: "parseHex (s @ toHex (x # xs)) = (256 * parseHex s + uint x) * 256 ^ length xs + parseHex (toHex xs)"
    using Cons [of "s @ byteHex x"] by (simp add: t parseHex_byteHex)
  have 2: "parseHex (toHex (x # xs)) = uint x * 256 ^ length xs + parseHex (toHex xs)"
    using Cons [of "byteHex x"] parseHex_byteHex [of "[]" x] by (simp add: t parseHex_def)
  have r: "0 \<le> parseHex (toHex xs)" "parseHex (toHex xs) < 256 ^ length xs"
    using Cons [of "[]"] by simp_all
  have "uint x \<le> 255" using uint_bounded [of x] by simp
  then have "uint x * 256 ^ length xs \<le> 255 * 256 ^ length xs" by (intro mult_right_mono) simp_all
  moreover have "(256::int) ^ length (x # xs) = 255 * 256 ^ length xs + 256 ^ length xs" by simp
  ultimately have "parseHex (toHex (x # xs)) < 256 ^ length (x # xs)" unfolding 2 using r by linarith
  moreover have "0 \<le> parseHex (toHex (x # xs))" unfolding 2 using r by simp
  ultimately show ?case unfolding 1 2 by (simp add: algebra_simps)
qed


lemma parseHex_toHex_bounds:
  "0 \<le> parseHex (toHex buf)" "parseHex (toHex buf) < 256 ^ length buf"
  using parseHex_toHex_append [of "[]" buf] by simp_all




lemma digits_rev_16:
  "list_all (\<lambda>d. d < 16) (digits_rev 16 x)
   \<and> digits_rev 16 x \<noteq> []
   \<and> parseHex (s @ map digitChar (rev (digits_rev 16 x))) = parseHex s * 16 ^ length (digits_rev 16 x) + int x
   \<and> (\<forall>j. 0 < j \<longrightarrow> x < 16 ^ j \<longrightarrow> length (digits_rev 16 x) \<le> j)"
proof (induction "16 :: nat" x arbitrary: s rule: digits_rev.induct)
  case (1 x)
  show ?case
  proof (cases "x < 16")
    case True
    then have d: "digits_rev 16 x = [x]" by (subst digits_rev.simps) simp
    show ?thesis using True by (auto simp: d parseHex_snoc hexValue_digitChar)
  next
    case False
    then have d: "digits_rev 16 x = (x mod 16) # digits_rev 16 (x div 16)"
      by (subst digits_rev.simps) simp
    have ih: "list_all (\<lambda>d. d < 16) (digits_rev 16 (x div 16))"
      "parseHex (s @ map digitChar (rev (digits_rev 16 (x div 16))))
        = parseHex s * 16 ^ length (digits_rev 16 (x div 16)) + int (x div 16)"
      "\<And>j. 0 < j \<Longrightarrow> x div 16 < 16 ^ j \<Longrightarrow> length (digits_rev 16 (x div 16)) \<le> j"
      using 1 [of s] False by simp_all
    have "parseHex (s @ map digitChar (rev (digits_rev 16 x)))
        = parseHex ((s @ map digitChar (rev (digits_rev 16 (x div 16)))) @ [digitChar (x mod 16)])"
      by (simp add: d)
    also have "\<dots> = 16 * (parseHex s * 16 ^ length (digits_rev 16 (x div 16)) + int (x div 16)) + int (x mod 16)"
      unfolding parseHex_snoc ih(2) by (simp add: hexValue_digitChar)
    also have "\<dots> = parseHex s * 16 ^ length (digits_rev 16 x) + (16 * (int x div 16) + int x mod 16)"
      by (simp add: d algebra_simps zmod_int zdiv_int)
    finally have v: "parseHex (s @ map digitChar (rev (digits_rev 16 x)))
        = parseHex s * 16 ^ length (digits_rev 16 x) + int x" by simp
    have len: "length (digits_rev 16 x) \<le> j" if "0 < j" "x < 16 ^ j" for j
    proof (cases j)
      case 0
      with that show ?thesis by simp
    next
      case (Suc i)
      have "i \<noteq> 0" using that(2) False Suc by (cases i) auto
      moreover have "x div 16 < 16 ^ i" using that(2) Suc by (simp add: less_mult_imp_div_less mult.commute)
      ultimately have "length (digits_rev 16 (x div 16)) \<le> i" by (intro ih(3)) simp_all
      then show ?thesis by (simp add: d Suc)
    qed
    show ?thesis using ih(1) v len by (simp add: d)
  qed
qed

lemma fromHex_digits:
  assumes "list_all (\<lambda>d. d < 16) ds" "even (length ds)"
  shows "toHex (fromHex (map digitChar ds)) = map digitChar ds"
  using assms
proof (induction ds rule: induct_list012)
  case 1
  show ?case by (simp add: toHex_def)
next
  case (2 d)
  then show ?case by simp
next
  case (3 h l ds)
  have hl: "h < 16" "l < 16" using 3(3) by simp_all
  then have "16 * h + l < 256" by simp
  then have u: "unat (of_nat (16 * h + l) :: byte) = 16 * h + l" by (simp only: unsigned_of_nat) (simp add: take_bit_nat_eq_self)
  have "byteHex (of_nat (16 * h + l)) = [digitChar h, digitChar l]"
    unfolding byteHex_def u using hl by simp
  moreover have "toHex (fromHex (map digitChar ds)) = map digitChar ds" using 3 by simp
  ultimately show ?case using hl by (simp add: hexValue_digitChar toHex_def)
qed

lemma bufferOfBigInt_value:
  assumes "0 \<le> m"
  shows "parseHex (toHex (bufferOfBigInt m)) = m"
    and "0 < k \<Longrightarrow> m < 256 ^ k \<Longrightarrow> length (bufferOfBigInt m) \<le> k"
proof -
  define ds where "ds = rev (digits_rev 16 (nat m))"
  define ds' where "ds' = (if odd (length ds) then 0 # ds else ds)"
  note D = digits_rev_16 [of "nat m" "[]"]
  have all: "list_all (\<lambda>d. d < 16) ds'" "even (length ds')"
    using D by (simp_all add: ds_def ds'_def)
  have hex: "toStringRadix 16 m = map digitChar ds"
    using assms by (simp add: toStringRadix_def ds_def)
  have b: "bufferOfBigInt m = fromHex (map digitChar ds')"
    by (simp add: bufferOfBigInt_def hex ds'_def digitChar_def odd_iff_mod_2_eq_one)
  have "parseHex (map digitChar ds') = parseHex (map digitChar ds)"
    by (simp add: ds'_def parseHex_def hexValue_digitChar)
  also have "\<dots> = m" using D assms by (simp add: ds_def parseHex_def)
  finally show "parseHex (toHex (bufferOfBigInt m)) = m"
    unfolding b fromHex_digits [OF all] .
  show "length (bufferOfBigInt m) \<le> k" if k: "0 < k" "m < 256 ^ k"
  proof -
    have "(256::int) ^ k = 16 ^ (2 * k)" by (simp add: power_mult)
    with k(2) assms have "int (nat m) < int (16 ^ (2 * k))" by simp
    then have "nat m < 16 ^ (2 * k)" by (simp only: of_nat_less_iff)
    with D k(1) have "length ds \<le> 2 * k" by (simp add: ds_def)
    then have "length ds' \<le> 2 * k" using all(2) by (auto simp: ds'_def)
    moreover have "list_all isHexDigit (map digitChar ds')"
      using all(1) by (induction ds') (simp_all add: digitChar_hex)
    ultimately show ?thesis unfolding b by (simp add: fromHex_length)
  qed
qed


section \<open>UTF-8: encoding, then decoding\<close>

lemma second_ok_three:
  assumes "32 \<le> y" "y < 1024" "\<not> (864 \<le> y \<and> y < 896)"
  shows "second_ok (224 + y div 64) (128 + y mod 64)"
proof -
  have q: "y div 64 < 16" using assms(2) by (simp add: less_mult_imp_div_less)
  have r: "y mod 64 < 64" by simp
  show ?thesis
  proof (cases "y div 64 = 0")
    case True
    then have "y mod 64 = y" by (simp add: div_eq_0_iff)
    with True assms(1) r show ?thesis by (simp add: second_ok_def)
  next
    case False
    show ?thesis
    proof (cases "y div 64 = 13")
      case True
      have "y = y div 64 * 64 + y mod 64" by simp
      then have "y = 832 + y mod 64" unfolding True by simp
      with assms(3) r have "y mod 64 < 32" by linarith
      with True show ?thesis by (simp add: second_ok_def)
    next
      case no: False
      with False q r show ?thesis by (simp add: second_ok_def isCont_def)
    qed
  qed
qed

lemma second_ok_four:
  assumes "16 \<le> x" "x < 272"
  shows "second_ok (240 + x div 64) (128 + x mod 64)"
proof -
  have r: "x mod 64 < 64" by simp
  have y: "x = x div 64 * 64 + x mod 64" by simp
  show ?thesis
  proof (cases "x div 64 = 0")
    case True
    then have "x mod 64 = x" by (simp add: div_eq_0_iff)
    with True assms(1) r show ?thesis by (simp add: second_ok_def)
  next
    case False
    show ?thesis
    proof (cases "x div 64 = 4")
      case True
      from y have "x = 256 + x mod 64" unfolding True by simp
      with assms(2) have "x mod 64 < 16" by linarith
      with True show ?thesis by (simp add: second_ok_def)
    next
      case no: False
      with False r show ?thesis by (simp add: second_ok_def isCont_def)
    qed
  qed
qed


lemma decode_three:
  assumes "q1 < 16" "second_ok (224 + q1) (128 + r1)" "r1 < 64" "r0 < 64"
  shows "utf8_decode_units ((224 + q1) # (128 + r1) # (128 + r0) # rest)
       = (q1 * 4096 + r1 * 64 + r0) # utf8_decode_units rest"
  using assms by (simp add: isCont_def)

lemma decode_four:
  assumes "z < 5" "second_ok (240 + z) (128 + a1)" "a1 < 64" "a2 < 64" "a3 < 64"
  shows "utf8_decode_units ((240 + z) # (128 + a1) # (128 + a2) # (128 + a3) # rest)
       = (55296 + (z * 262144 + a1 * 4096 + a2 * 64 + a3 - 65536) div 1024)
         # (56320 + (z * 262144 + a1 * 4096 + a2 * 64 + a3 - 65536) mod 1024)
         # utf8_decode_units rest"
  using assms by (simp add: isCont_def Let_def)

lemma split_64:
  fixes c :: nat
  shows "c = c div 64 div 64 * 4096 + c div 64 mod 64 * 64 + c mod 64"
    and "c = c div 64 div 64 div 64 * 262144 + c div 64 div 64 mod 64 * 4096 + c div 64 mod 64 * 64 + c mod 64"
proof -
  define y where "y = c div 64"
  define x where "x = y div 64"
  have 1: "c = y * 64 + c mod 64" by (simp add: y_def)
  have 2: "y = x * 64 + y mod 64" by (simp add: x_def)
  have 3: "x = x div 64 * 64 + x mod 64" by simp
  show "c = c div 64 div 64 * 4096 + c div 64 mod 64 * 64 + c mod 64"
    unfolding y_def [symmetric] x_def [symmetric] using 1 2 by linarith
  show "c = c div 64 div 64 div 64 * 262144 + c div 64 div 64 mod 64 * 4096 + c div 64 mod 64 * 64 + c mod 64"
    unfolding y_def [symmetric] x_def [symmetric] using 1 2 3 by linarith
qed

lemma utf8_units_round_trip:
  "wellFormed s \<Longrightarrow> utf8_decode_units (utf8_encode_units s) = s"
proof (induction s rule: wellFormed.induct)
  case 1
  show ?case by simp
next
  case (2 c cs)
  show ?case
  proof (cases "55296 \<le> c \<and> c < 56320")
    case True
    with 2(3) obtain d ds where cs: "cs = d # ds" and d: "56320 \<le> d" "d < 57344" and w: "wellFormed ds"
      by (cases cs) auto
    from 2(1) [OF True cs] w have ih: "utf8_decode_units (utf8_encode_units ds) = ds" by simp
    define cp where "cp = 65536 + (c - 55296) * 1024 + (d - 56320)"
    have cp: "65536 \<le> cp" "cp < 1114112" using True d unfolding cp_def by linarith+
    have dv: "cp div 262144 = cp div 64 div 64 div 64" "cp div 4096 = cp div 64 div 64"
      using div_mult2_eq [of cp 4096 64] div_mult2_eq [of cp 64 64] by simp_all
    have e: "utf8_encode_units (c # cs) =
      (240 + cp div 64 div 64 div 64) # (128 + cp div 64 div 64 mod 64) # (128 + cp div 64 mod 64)
        # (128 + cp mod 64) # utf8_encode_units ds"
      using True d by (simp add: cs cp_def [symmetric] Let_def dv)
    have x: "16 \<le> cp div 64 div 64" "cp div 64 div 64 < 272"
      unfolding dv(2) [symmetric] using cp div_le_mono [of 65536 cp 4096]
      by (simp_all add: less_mult_imp_div_less)
    have z: "cp div 64 div 64 div 64 < 5" using x(2) by (simp add: less_mult_imp_div_less)
    have "cp - 65536 = (c - 55296) * 1024 + (d - 56320)" by (simp add: cp_def)
    moreover have "d - 56320 < 1024" using d by simp
    ultimately have u: "(cp - 65536) div 1024 = c - 55296" "(cp - 65536) mod 1024 = d - 56320"
      by simp_all
    show ?thesis
      unfolding e decode_four [OF z second_ok_four [OF x] mod_less_divisor [OF zero_less_numeral]
          mod_less_divisor [OF zero_less_numeral] mod_less_divisor [OF zero_less_numeral]]
        split_64(2) [of cp, symmetric] u ih
      using True d by (simp add: cs)
  next
    case False
    with 2(3) have c: "\<not> (56320 \<le> c \<and> c < 57344)" "c < 65536" and w: "wellFormed cs" by auto
    from 2(2) [OF False] w have ih: "utf8_decode_units (utf8_encode_units cs) = cs" by simp
    consider (a) "c < 128" | (b) "128 \<le> c" "c < 2048" | (c) "2048 \<le> c" by linarith
    then show ?thesis
    proof cases
      case a
      then show ?thesis using ih by simp
    next
      case b
      have "194 \<le> 192 + c div 64" "192 + c div 64 < 224"
        using b div_le_mono [of 128 c 64] by (simp_all add: less_mult_imp_div_less)
      then show ?thesis using b ih by (simp add: isCont_def)
    next
      case c
      have dv: "c div 4096 = c div 64 div 64" using div_mult2_eq [of c 64 64] by simp
      have e: "utf8_encode_units (c # cs) =
        (224 + c div 64 div 64) # (128 + c div 64 mod 64) # (128 + c mod 64) # utf8_encode_units cs"
        using c by (simp add: dv False \<open>\<not> (56320 \<le> c \<and> c < 57344)\<close>)
      have y: "32 \<le> c div 64" "c div 64 < 1024" "\<not> (864 \<le> c div 64 \<and> c div 64 < 896)"
      proof -
        show "32 \<le> c div 64" using c div_le_mono [of 2048 c 64] by simp
        show "c div 64 < 1024" using \<open>c < 65536\<close> by (simp add: less_mult_imp_div_less)
        have "c < 55296 \<or> 57344 \<le> c" using False \<open>\<not> (56320 \<le> c \<and> c < 57344)\<close> by linarith
        then show "\<not> (864 \<le> c div 64 \<and> c div 64 < 896)"
        proof
          assume "c < 55296"
          then have "c div 64 < 864" by (simp add: less_mult_imp_div_less)
          then show ?thesis by simp
        next
          assume "57344 \<le> c"
          then have "896 \<le> c div 64" using div_le_mono [of 57344 c 64] by simp
          then show ?thesis by simp
        qed
      qed
      have q: "c div 64 div 64 < 16" using y(2) by (simp add: less_mult_imp_div_less)
      show ?thesis
        unfolding e decode_three [OF q second_ok_three [OF y] mod_less_divisor [OF zero_less_numeral]
            mod_less_divisor [OF zero_less_numeral]] split_64(1) [of c, symmetric] ih ..
    qed
  qed
qed

lemma three_byte_value:
  fixes q r1 r0 :: nat
  assumes "r1 < 64" "r0 < 64" "q * 4096 + r1 * 64 + r0 = 55296"
  shows "q = 13 \<and> r1 = 32"
proof -
  have "q < 14" using assms by linarith
  moreover have "12 < q" using assms by linarith
  ultimately have "q = 13" by simp
  with assms show ?thesis by simp
qed

lemma second_ok_cont: "second_ok b c \<Longrightarrow> 128 \<le> c \<and> c < 192"
  by (auto simp: second_ok_def isCont_def split: if_splits)

lemma utf8_decode_units_not_lone: "utf8_decode_units bs \<noteq> [55296]"
proof (cases bs)
  case Nil
  then show ?thesis by simp
next
  case (Cons b bs')
  consider (a) "b < 128" | (b) "194 \<le> b" "b < 224" | (c) "224 \<le> b" "b < 240"
    | (d) "240 \<le> b" "b < 245" | (e) "128 \<le> b" "b < 194 \<or> 245 \<le> b" by linarith
  then show ?thesis
  proof cases
    case a
    then show ?thesis by (simp add: Cons)
  next
    case b
    then show ?thesis
      by (auto simp: Cons isCont_def split: list.splits)
  next
    case c
    show ?thesis
    proof
      assume eq: "utf8_decode_units bs = [55296]"
      from eq c obtain c' d' ds where bs': "bs' = c' # d' # ds" and so: "second_ok b c'"
        and d: "isCont d'" and v: "(b - 224) * 4096 + (c' - 128) * 64 + (d' - 128) = 55296"
        by (auto simp: Cons split: list.splits if_splits)
      from second_ok_cont [OF so] d have "c' - 128 < 64" "d' - 128 < 64"
        by (auto simp: isCont_def)
      from three_byte_value [OF this v] have "b - 224 = 13" "c' - 128 = 32" by simp_all
      with c second_ok_cont [OF so] have "b = 237" "c' = 160" by linarith+
      with so show False by (simp add: second_ok_def)
    qed
  next
    case d
    then show ?thesis
      by (auto simp: Cons Let_def split: list.splits)
  next
    case e
    then show ?thesis by (auto simp: Cons)
  qed
qed

lemma utf8_encode_units_bytes:
  "wellFormed s \<Longrightarrow> list_all (\<lambda>b. b < 256) (utf8_encode_units s)"
proof (induction s rule: wellFormed.induct)
  case 1
  show ?case by simp
next
  case (2 c cs)
  have m: "128 + x mod 64 < 256" for x :: nat
    using mod_less_divisor [of 64 x] by linarith
  show ?case
  proof (cases "55296 \<le> c \<and> c < 56320")
    case True
    with 2(3) obtain d ds where cs: "cs = d # ds" and d: "56320 \<le> d" "d < 57344" and w: "wellFormed ds"
      by (cases cs) auto
    from 2(1) [OF True cs] w have ih: "list_all (\<lambda>b. b < 256) (utf8_encode_units ds)" by simp
    define cp where "cp = 65536 + (c - 55296) * 1024 + (d - 56320)"
    have "cp < 1114112" using True d unfolding cp_def by linarith
    then have "cp div 262144 < 5" by (simp add: less_mult_imp_div_less)
    then have "240 + cp div 262144 < 256" by simp
    then show ?thesis using True d ih m by (simp add: cs cp_def [symmetric] Let_def)
  next
    case False
    with 2(3) have c: "\<not> (56320 \<le> c \<and> c < 57344)" "c < 65536" and w: "wellFormed cs" by auto
    from 2(2) [OF False] w have ih: "list_all (\<lambda>b. b < 256) (utf8_encode_units cs)" by simp
    have "c div 4096 < 16" using c(2) by (simp add: less_mult_imp_div_less)
    then have 1: "224 + c div 4096 < 256" by simp
    have "c < 2048 \<Longrightarrow> c div 64 < 32" by (simp add: less_mult_imp_div_less)
    then have 2: "c < 2048 \<Longrightarrow> 192 + c div 64 < 256" by fastforce
    show ?thesis using ih m 1 2 by (simp add: False c(1))
  qed
qed

lemma utf8_round_trip: "wellFormed s \<Longrightarrow> utf8_decode (utf8_encode s) = s"
proof -
  assume w: "wellFormed s"
  have "map unat (map (of_nat :: nat \<Rightarrow> byte) xs) = xs" if "list_all (\<lambda>b. b < 256) xs" for xs
    using that by (induction xs) (simp_all add: unsigned_of_nat take_bit_nat_eq_self)
  from this [OF utf8_encode_units_bytes [OF w]] utf8_units_round_trip [OF w]
  show ?thesis by (simp add: utf8_decode_def utf8_encode_def)
qed

lemma utf8_decode_not_lone: "utf8_decode buf \<noteq> [55296]"
  unfolding utf8_decode_def by (rule utf8_decode_units_not_lone)

section \<open>The signature padding\<close>

lemma salt_loop_length [simp]: "length (salt_loop n rng) = n"
  by (induction n arbitrary: rng) (simp_all add: split_beta Let_def)

lemma clearUnused_length [simp]: "length (clearUnused u buf) = length buf"
  by (simp add: clearUnused_def)

lemma xorN_nth: "i < n \<Longrightarrow> xorN n a b ! i = byteAt a i XOR byteAt b i"
  by (simp add: xorN_def)












lemma bitLength_bounds:
  assumes "0 < n"
  shows "2 ^ (bitLength n - 1) \<le> n" "n < 2 ^ bitLength n" "0 < bitLength n"
proof -
  have bl: "bitLength n = length (digits_rev 2 (nat n))"
    using assms by (simp add: bitLength_def toStringRadix_def)
  from digits_rev_bounds [of "nat n"] assms
  have b: "2 ^ bitLength n \<le> 2 * nat n" "nat n < 2 ^ bitLength n" by (simp_all add: bl)
  show pos: "0 < bitLength n"
  proof (rule ccontr)
    assume "\<not> 0 < bitLength n"
    with b(2) assms show False by simp
  qed
  then obtain j where j: "bitLength n = Suc j" by (cases "bitLength n") auto
  from b(1) have "2 ^ j \<le> nat n" by (simp add: j)
  then have "int (2 ^ j) \<le> int (nat n)" by (simp only: of_nat_le_iff)
  then show "2 ^ (bitLength n - 1) \<le> n" using assms by (simp add: j)
  from b(2) have "int (nat n) < int (2 ^ bitLength n)" by (simp only: of_nat_less_iff)
  then show "n < 2 ^ bitLength n" using assms by simp
qed


section \<open>The encryption padding: encoding, then decoding\<close>

lemma xorN_involution:
  assumes "length a = n" "length b = n"
  shows "xorN n (xorN n a b) b = a"
proof (rule nth_equalityI)
  show "length (xorN n (xorN n a b) b) = length a" using assms by simp
next
  fix i
  assume "i < length (xorN n (xorN n a b) b)"
  then have i: "i < n" by simp
  then show "xorN n (xorN n a b) b ! i = a ! i"
    using assms by (simp add: xorN_nth byteAt_def xor.assoc)
qed

lemma skipZeros_zeros:
  assumes "length pre = i0" "i0 \<le> i" "i \<le> i0 + j"
  shows "skipZeros i (pre @ replicate j 0 @ [1] @ rest) = i0 + j"
  using assms(2,3)
proof (induction "i0 + j - i" arbitrary: i)
  case 0
  then have "i = i0 + j" by simp
  then show ?case using assms(1) by (subst skipZeros.simps) (simp add: nth_append)
next
  case (Suc d)
  then have lt: "i < i0 + j" and d: "d = i0 + j - (i + 1)" "i0 \<le> i + 1" "i + 1 \<le> i0 + j" by simp_all
  have "(pre @ replicate j 0 @ [1] @ rest) ! i = 0"
    using lt Suc.prems(1) assms(1) by (simp add: nth_append)
  with Suc(1) [OF d] lt assms(1) show ?case
    by (subst skipZeros.simps) auto
qed

lemma sha256_empty_label: "\<exists>h. bufferFromHex (sha256_buffer []) = Inr h \<and> length h = 32"
proof -
  have "utf8_decode [] = []" by (simp add: utf8_decode_def)
  then obtain d where d: "sha256_buffer [] = Some d"
    using sha256_of_None [of 0 "[]"] by (auto simp: sha256_buffer_def)
  from sha256_of_Some [OF d [unfolded sha256_buffer_def]] have "length (fromHex d) = 32"
    by (simp add: fromHex_length)
  with d show ?thesis by (simp add: bufferFromHex_def)
qed

lemma OAEP_round_trip:
  assumes "OAEPEncode message [] k ent = Inr EM"
  shows "OAEPDecode EM [] = Inr (utf8_decode (utf8_encode message))"
    and "length EM = k" and "66 \<le> k" and "EM ! 0 = 0"
proof -
  let ?m = "utf8_encode message"
  obtain lHash where lHash: "bufferFromHex (sha256_buffer []) = Inr lHash" "length lHash = 32"
    using sha256_empty_label by blast
  have long: "\<not> int k - int (length ?m) - 2 * 32 - 2 < 0"
    using assms by (auto simp: OAEPEncode_def Let_def split: if_splits)
  then show k: "66 \<le> k" by simp
  define ps where "ps = k - length ?m - 66"
  have ps: "nat (int k - int (length ?m) - 2 * 32 - 2) = ps" using long by (simp add: ps_def)
  define DB where "DB = lHash @ replicate ps 0 @ [1] @ ?m"
  have lDB: "length DB = k - 33" using long by (simp add: DB_def lHash(2) ps_def)
  from assms obtain rng where rng: "initPRNG 64 ent = Inr rng"
    unfolding OAEPEncode_def Let_def if_not_P [OF long] lHash(1) bind_simps
    by (auto simp: bind_eq_Inr_iff)
  define seed where "seed = getSeedFromBBS rng 32"
  have lseed: "length seed = 32" by (simp add: seed_def getSeedFromBBS_def getSeed_loop_length)
  obtain dbMask where dbMask: "MGF1 seed (k - 33) = Inr dbMask" "length dbMask = k - 33"
    using MGF1_ok by blast
  define maskedDB where "maskedDB = xorN (k - 33) DB dbMask"
  obtain seedMask where seedMask: "MGF1 maskedDB 32 = Inr seedMask" "length seedMask = 32"
    using MGF1_ok by blast
  define maskedSeed where "maskedSeed = xorN 32 seed seedMask"
  have "k - 32 - 1 = k - 33" by simp
  then have "OAEPEncode message [] k ent = Inr ([0] @ maskedSeed @ maskedDB)"
    unfolding OAEPEncode_def Let_def if_not_P [OF long] lHash(1) bind_simps ps rng
      DB_def [symmetric] lDB seed_def [symmetric]
    using dbMask(1) seedMask(1)
    by (simp add: maskedDB_def [symmetric] maskedSeed_def [symmetric])
  with assms have EM: "EM = [0] @ maskedSeed @ maskedDB" by simp
  show "length EM = k" using k by (simp add: EM maskedSeed_def maskedDB_def)
  show "EM ! 0 = 0" by (simp add: EM)
  have parts: "take 32 (drop 1 EM) = maskedSeed" "drop (1 + 32) EM = maskedDB"
    "length maskedDB = k - 33"
    by (simp_all add: EM maskedSeed_def maskedDB_def)
  have s: "xorN 32 maskedSeed seedMask = seed"
    unfolding maskedSeed_def using lseed seedMask(2) by (rule xorN_involution)
  have db: "xorN (k - 33) maskedDB dbMask = DB"
    unfolding maskedDB_def using lDB dbMask(2) by (rule xorN_involution)
  have t: "take 32 DB = lHash" by (simp add: DB_def lHash(2))
  have sk: "skipZeros 32 DB = 32 + ps"
    unfolding DB_def by (rule skipZeros_zeros) (simp_all add: lHash(2))
  have sep: "32 + ps < length DB" "DB ! (32 + ps) = 1" "drop (32 + ps + 1) DB = ?m"
    by (simp_all add: DB_def lHash(2) nth_append)
  have ne: "\<not> (EM = [] \<or> EM ! 0 \<noteq> 0)" by (simp add: EM)
  show "OAEPDecode EM [] = Inr (utf8_decode (utf8_encode message))"
    unfolding OAEPDecode_def Let_def if_not_P [OF ne] parts seedMask(1) bind_simps s dbMask(1) db
      lHash(1) t sk
    using sep by simp
qed

section \<open>The primes of the example key\<close>


















lemma big_key_bits: "bitLength (priv_n big_key) = 545"
  by (rule bitLength_eqI) (simp_all add: big_key_def)

section \<open>An entropy on which the generators initialise\<close>

text \<open>
  With the three oracle values equal to 1078 every seed is \<open>0x1078 = 4216\<close>, and the first
  candidate that \<open>generatePrime3Mod4\<close> draws passes the sixteen rounds of the Miller-Rabin
  test, for 32-bit and for 128-bit candidates: \<open>initPRNG(64)\<close> and \<open>initPRNG(256)\<close> return.
  The modular powers of the rounds are checked from certificates.
\<close>

lemma pow_chain_sound:
  assumes "pow_chain N a x e c = Some (z, e')" "0 \<le> e" "x mod N = a ^ nat e mod N"
  shows "z mod N = a ^ nat e' mod N \<and> 0 \<le> e'"
  using assms
proof (induction c arbitrary: x e)
  case Nil
  then show ?case by simp
next
  case (Cons s c)
  obtain b q y where s: "s = (b, q, y)" by (cases s)
  let ?f = "if b then a else 1" and ?e = "2 * e + (if b then 1 else 0)"
  from Cons.prems(1) have eq: "x * x * ?f = q * N + y"
    and r: "pow_chain N a y ?e c = Some (z, e')"
    by (simp_all add: s split: if_splits)
  have e: "0 \<le> ?e" using Cons.prems(2) by simp
  have ne: "nat ?e = nat e + nat e + (if b then 1 else 0)"
    using Cons.prems(2) by (cases b; simp add: nat_add_distrib nat_mult_distrib)
  have xx: "(x * x) mod N = (a ^ nat e * a ^ nat e) mod N"
    by (rule mod_mult_cong) (rule Cons.prems(3))+
  have "y mod N = (q * N + y) mod N" by simp
  also have "\<dots> = (x * x * ?f) mod N" by (simp only: eq)
  also have "\<dots> = (a ^ nat e * a ^ nat e * ?f) mod N"
    using xx by (rule mod_mult_cong) simp
  also have "a ^ nat e * a ^ nat e * ?f = a ^ nat ?e"
    unfolding ne by (simp add: power_add)
  finally have "y mod N = a ^ nat ?e mod N" .
  from Cons.IH [OF r e this] show ?case .
qed

lemma modPow_nz_certificate:
  assumes "pow_chain N a a 1 c = Some (z, d)" "0 < d" "0 \<le> a" "a < N" "0 \<le> z" "z < N"
  shows "modPow_nz a d N = z"
proof -
  have N: "0 < N" using assms(3,4) by simp
  have "a mod N = a ^ nat 1 mod N" by simp
  from pow_chain_sound [OF assms(1) _ this] have z: "z mod N = a ^ nat d mod N" by simp
  have "modPow_nz a d N = a ^ nat d mod N"
    unfolding modPow_nz_def using assms(2,3,4) N by (simp add: modPow_loop_eq)
  with z assms(5,6) show ?thesis by simp
qed

lemma mr_outer_accepts:
  assumes "list_all (\<lambda>a. a < n - 2 \<and> (modPow_nz a d n = 1 \<or> modPow_nz a d n = n - 1)) mr_bases"
  shows "mr_outer i k d r n"
proof (induction "k - i" arbitrary: i)
  case 0
  then show ?case by (subst mr_outer.simps) simp
next
  case (Suc j)
  then have lt: "i < k" and j: "j = k - (i + 1)" by simp_all
  have "mr_bases ! (i mod length mr_bases) \<in> set mr_bases"
    by (rule nth_mem) (simp add: mr_bases_def)
  with assms have "mr_bases ! (i mod length mr_bases) < n - 2"
    "modPow_nz (mr_bases ! (i mod length mr_bases)) d n = 1
     \<or> modPow_nz (mr_bases ! (i mod length mr_bases)) d n = n - 1"
    by (auto simp: list_all_iff)
  with Suc(1) [OF j] lt show ?case
    by (subst mr_outer.simps) (auto simp: Let_def)
qed

lemma nextBits_loop_step:
  assumes "0 \<le> s" "0 < m" "0 \<le> r"
  shows "nextBits_loop (Suc i) r \<lparr> bbs_p = p, bbs_q = q, bbs_m = m, bbs_bits = b, bbs_state = s \<rparr>
       = nextBits_loop i (2 * r + s * s mod m mod 2)
           \<lparr> bbs_p = p, bbs_q = q, bbs_m = m, bbs_bits = b, bbs_state = s * s mod m \<rparr>"
proof -
  let ?t = "s * s mod m"
  have t: "0 \<le> ?t" using assms(2) by simp
  have b: "?t AND 1 = ?t mod 2" by (simp add: and_one_eq)
  have "?t mod 2 = 0 \<or> ?t mod 2 = 1" by presburger
  then have "push_bit 1 r OR ?t mod 2 = 2 * r + ?t mod 2"
    by (auto simp: push_bit_eq_mult or_one_eq)
  then show ?thesis
    using assms by (simp add: nextBit_def Let_def b)
qed

lemma nextBits_loop_numeral:
  assumes "0 \<le> s" "0 < m" "0 \<le> r"
  shows "nextBits_loop (numeral k) r \<lparr> bbs_p = p, bbs_q = q, bbs_m = m, bbs_bits = b, bbs_state = s \<rparr>
       = nextBits_loop (pred_numeral k) (2 * r + s * s mod m mod 2)
           \<lparr> bbs_p = p, bbs_q = q, bbs_m = m, bbs_bits = b, bbs_state = s * s mod m \<rparr>"
  unfolding numeral_eq_Suc using assms by (rule nextBits_loop_step)

lemma nextBit_record:
  assumes "0 \<le> s" "0 < m"
  shows "nextBit \<lparr> bbs_p = p, bbs_q = q, bbs_m = m, bbs_bits = b, bbs_state = s \<rparr>
       = (s * s mod m mod 2, \<lparr> bbs_p = p, bbs_q = q, bbs_m = m, bbs_bits = b, bbs_state = s * s mod m \<rparr>)"
  using assms by (simp add: nextBit_def Let_def and_one_eq)

subsection \<open>The certificates of the modular powers\<close>

lemma cand32_base_2:
  "pow_chain 3693992839 2 2 1
    [(True, 0, 8),
     (False, 0, 64),
     (True, 0, 8192),
     (True, 0, 134217728),
     (True, 9753347, 3044681835),
     (False, 2509503369, 1846592634),
     (False, 923094468, 1430543304),
     (False, 553995157, 1820555693),
     (False, 897246739, 2632608228),
     (True, 3752376566, 231189094),
     (False, 14469004, 21078480),
     (True, 240553, 3578820833),
     (True, 6934479363, 314346221),
     (False, 26749793, 2870248514),
     (True, 4460391176, 955627728),
     (True, 494437533, 2810057781),
     (True, 4275278852, 1101147094),
     (False, 328242358, 2716170474),
     (True, 3994367268, 3330775500),
     (True, 6006544091, 3508735651),
     (False, 3332769283, 3157229364),
     (True, 5396922891, 1818511443),
     (True, 1790465771, 95270629),
     (True, 4914190, 2830625872),
     (False, 2169046659, 1432885483),
     (False, 555810716, 2648680565),
     (False, 1899166847, 2524510592),
     (False, 1725275063, 1092916607),
     (True, 646707647, 2768245065),
     (True, 4148995991, 1)]
   = Some (1, 1846996419)"
  by code_simp

lemma cand32_base_3:
  "pow_chain 3693992839 3 3 1
    [(True, 0, 27),
     (False, 0, 729),
     (True, 0, 1594323),
     (True, 2064, 1196265291),
     (True, 1162198230, 235469073),
     (False, 15009689, 657862258),
     (False, 117158524, 1817048928),
     (False, 893793504, 3425231328),
     (False, 3176023929, 93999153),
     (True, 7175845, 2250378272),
     (False, 1370929124, 257162948),
     (True, 53708373, 215811165),
     (True, 37824485, 87108760),
     (False, 2054128, 1946348208),
     (True, 3076566343, 604016015),
     (True, 296293492, 1439136887),
     (True, 1682013260, 1029107167),
     (False, 286698325, 1667471214),
     (True, 2258093372, 2594538280),
     (True, 5466953386, 125272346),
     (False, 4248292, 446362728),
     (True, 161808395, 2422722547),
     (True, 4766861871, 3250359858),
     (True, 8580015988, 1315830560),
     (False, 468709642, 1511659962),
     (False, 618603213, 1709449737),
     (False, 791073109, 3557902718),
     (False, 3426826283, 852800087),
     (True, 590635678, 171712865),
     (True, 23945883, 3693992838)]
   = Some (3693992838, 1846996419)"
  by code_simp

lemma cand32_base_5:
  "pow_chain 3693992839 5 5 1
    [(True, 0, 125),
     (False, 0, 15625),
     (True, 0, 1220703125),
     (True, 2016945056, 3403374141),
     (True, 15678096910, 3449411915),
     (False, 3221024803, 2820581508),
     (False, 2153680418, 1685027362),
     (False, 768630946, 330883350),
     (False, 29638333, 1445325113),
     (True, 2827515879, 2157523364),
     (False, 1260128881, 3574793337),
     (True, 17297201103, 2073076428),
     (True, 5817073913, 3090486913),
     (False, 2585578742, 1805641031),
     (True, 4413029037, 3176648762),
     (True, 13658793880, 3483637900),
     (True, 16426308262, 547514182),
     (False, 81151153, 1432535757),
     (True, 2777697175, 2057285420),
     (True, 5728791965, 1892143365),
     (False, 969196928, 2100724633),
     (True, 5973270896, 3233809701),
     (True, 14154771866, 725879431),
     (True, 713186207, 212847132),
     (False, 12264209, 1378626073),
     (False, 514513679, 3361856648),
     (False, 3059583657, 2422363681),
     (False, 1588483264, 940523265),
     (True, 1197327729, 3169168494),
     (True, 13594543061, 1)]
   = Some (1, 1846996419)"
  by code_simp

lemma cand32_base_7:
  "pow_chain 3693992839 7 7 1
    [(True, 0, 343),
     (False, 0, 117649),
     (True, 26, 845196593),
     (True, 1353684531, 1952580034),
     (True, 7224697688, 816231860),
     (False, 180356183, 807686063),
     (False, 176599361, 1458464090),
     (False, 575831517, 1551021337),
     (False, 651237642, 1794021931),
     (True, 6098983892, 138431939),
     (False, 5187720, 1204562641),
     (True, 2749544608, 187202055),
     (True, 66408430, 904328405),
     (False, 221389130, 3237403955),
     (True, 19860756036, 837467971),
     (True, 1329041075, 3369135962),
     (True, 21509933390, 3064663898),
     (False, 2542550897, 1393527821),
     (True, 3679876791, 950756638),
     (True, 1712934369, 144457717),
     (False, 5649180, 1534630069),
     (True, 4462820275, 3158602602),
     (True, 18905665448, 86465956),
     (True, 14167469, 1796203061),
     (False, 873403273, 324607674),
     (False, 28524728, 1053267484),
     (False, 300317959, 2882594655),
     (False, 2249422862, 923683807),
     (True, 1616771522, 2630961785),
     (True, 13116895866, 1)]
   = Some (1, 1846996419)"
  by code_simp

lemma cand32_base_11:
  "pow_chain 3693992839 11 11 1
    [(True, 0, 1331),
     (False, 0, 1771561),
     (True, 9345, 2349063476),
     (True, 16431837852, 152086508),
     (True, 68877601, 210475465),
     (False, 11992422, 376700167),
     (False, 38414534, 2308305863),
     (False, 1442416428, 1272215677),
     (False, 438152643, 3173644852),
     (True, 29992542742, 537696406),
     (False, 78266915, 1484695151),
     (True, 6564039959, 1976187210),
     (True, 11629279387, 335115407),
     (False, 30401341, 58778550),
     (True, 10288080, 3494068380),
     (True, 36354605473, 3341860553),
     (True, 33256250584, 3386555923),
     (False, 3104705807, 1346665856),
     (True, 5400280692, 40375508),
     (True, 4854367, 1172960791),
     (False, 372452540, 1595984621),
     (True, 7584973018, 2653431949),
     (True, 20965853363, 1267257054),
     (True, 4782181671, 2569294107),
     (False, 1787028967, 1081360136),
     (False, 316551708, 1204719484),
     (False, 392894382, 1537895758),
     (False, 640262032, 1182805716),
     (True, 4166040285, 49480101),
     (True, 7290507, 3693992838)]
   = Some (3693992838, 1846996419)"
  by code_simp

lemma cand32_base_13:
  "pow_chain 3693992839 13 13 1
    [(True, 0, 2197),
     (False, 0, 4826809),
     (True, 81991, 939729804),
     (True, 3107801736, 1020650904),
     (True, 3666078433, 3153882521),
     (False, 2692743432, 1197031993),
     (False, 387896147, 2971860716),
     (False, 2390896923, 2954898259),
     (False, 2363681821, 592751262),
     (True, 1236494752, 2484623444),
     (False, 1671187229, 1920168005),
     (True, 12975549565, 1334275290),
     (True, 6265246889, 1026565429),
     (False, 285283871, 3461754272),
     (True, 42173512810, 618482202),
     (True, 1346175604, 3267494696),
     (True, 37573104956, 2586311324),
     (False, 1810779434, 2446159850),
     (True, 21057992677, 223852497),
     (True, 176348264, 984673621),
     (False, 262475370, 2699376211),
     (True, 25643313130, 210638703),
     (True, 156143405, 1692711922),
     (True, 10083548908, 3593873280),
     (False, 3496467295, 3170257895),
     (False, 2720778181, 3688385166),
     (False, 3682786005, 2729429361),
     (False, 2016729582, 2581405023),
     (True, 23450904855, 3564863532),
     (True, 44723225849, 1)]
   = Some (1, 1846996419)"
  by code_simp

lemma cand32_base_17:
  "pow_chain 3693992839 17 17 1
    [(True, 0, 4913),
     (False, 0, 24137569),
     (True, 2681266, 629451763),
     (True, 1823382493, 1144771246),
     (True, 6031013450, 149988222),
     (False, 6090013, 2327304377),
     (False, 1466257759, 1329170328),
     (False, 478261284, 2568682308),
     (False, 1786178015, 2842972279),
     (True, 37196161290, 2212712987),
     (False, 1325421833, 3082208282),
     (True, 43719666288, 357944276),
     (True, 589635626, 196508778),
     (False, 10453647, 2671619451),
     (True, 32847480662, 1727224399),
     (True, 13729363408, 3334855105),
     (True, 51180769414, 3031311079),
     (False, 2487510739, 866546220),
     (True, 3455702414, 2705889454),
     (True, 33695582790, 1371467162),
     (False, 509184034, 1115201718),
     (True, 5723474230, 1291536938),
     (True, 7676557993, 3402857221),
     (True, 53289338152, 2163834769),
     (False, 1267512177, 2349982858),
     (False, 1494972966, 1991257690),
     (False, 1073393306, 2189600366),
     (False, 1297877384, 391280780),
     (True, 704579338, 476582218),
     (True, 1045270130, 3693992838)]
   = Some (3693992838, 1846996419)"
  by code_simp

lemma cand32_base_19:
  "pow_chain 3693992839 19 19 1
    [(True, 0, 6859),
     (False, 0, 47045881),
     (True, 11384154, 108183853),
     (True, 60198052, 1938836943),
     (True, 19334819598, 921261009),
     (False, 229757306, 3631766347),
     (False, 3570588080, 662965289),
     (False, 118983169, 171326730),
     (False, 7946103, 832536483),
     (True, 3565037478, 495556449),
     (False, 66479878, 875895959),
     (True, 3946050120, 3242973259),
     (True, 54093400913, 3414478532),
     (False, 3156114306, 59420290),
     (True, 18160470, 277123570),
     (True, 395006718, 292460698),
     (True, 439939114, 906292230),
     (False, 222351705, 148932405),
     (True, 114086946, 2375216781),
     (True, 29017771568, 2206235707),
     (False, 1317673370, 1920792419),
     (True, 18976600625, 3556635284),
     (True, 65063319502, 2524406286),
     (True, 32777517476, 2588607760),
     (False, 1813996514, 2445254354),
     (False, 1618646574, 2528073730),
     (False, 1730148666, 1706710126),
     (False, 788539550, 3222653426),
     (True, 53417647401, 2560250605),
     (True, 33714948966, 1)]
   = Some (1, 1846996419)"
  by code_simp

lemma cand32_base_23:
  "pow_chain 3693992839 23 23 1
    [(True, 0, 12167),
     (False, 0, 148035889),
     (True, 136447574, 681544797),
     (True, 2892148578, 852704865),
     (True, 4527195699, 3419769714),
     (False, 3165903510, 1886676906),
     (False, 963604939, 3342701015),
     (False, 3024816387, 2814177532),
     (False, 2143911893, 1424676797),
     (True, 12637596627, 3625567754),
     (False, 3558410130, 399545446),
     (True, 993949127, 1176493515),
     (True, 8618086763, 849580018),
     (False, 195394587, 1827517831),
     (True, 20794813652, 1500286875),
     (True, 14014590315, 2708355090),
     (True, 45671260098, 1046448078),
     (False, 296441717, 171029521),
     (True, 182126837, 562536900),
     (True, 1970306626, 1738778786),
     (False, 818450873, 2708335349),
     (True, 45670594311, 3079752494),
     (True, 59055917070, 1724199098),
     (True, 18510008318, 2989878090),
     (False, 2419975182, 196326402),
     (False, 10434253, 259951337),
     (False, 18293131, 2691198660),
     (False, 1960629200, 2851496800),
     (True, 50626460353, 1536107833),
     (True, 14691806314, 1)]
   = Some (1, 1846996419)"
  by code_simp










subsection \<open>The candidates and the generators\<close>

lemma cand32_drawn:
  "nextBits 32 \<lparr> bbs_p = 499, bbs_q = 547, bbs_m = 272953, bbs_bits = 32, bbs_state = 4216 \<rparr>
     = (3693992839, \<lparr> bbs_p = 499, bbs_q = 547, bbs_m = 272953, bbs_bits = 32, bbs_state = 143111 \<rparr>)"
  by (simp add: nextBits_def nextBits_loop_numeral nextBit_record)



lemma reseed_1078: "reseed 1078 = 4216"
  by (simp add: reseed_def toStringRadix_def digits_rev.simps digitChar_def parseHex_def hexValue_def)

lemma cand32_accepted: "isPrimeMillerRabin 3693992839 16"
proof -
  have d: "mr_decompose 3693992838 0 = (1846996419, 1)"
    by (simp add: mr_decompose.simps)
  have "list_all (\<lambda>a. a < 3693992839 - 2
      \<and> (modPow_nz a 1846996419 3693992839 = 1
         \<or> modPow_nz a 1846996419 3693992839 = 3693992839 - 1)) mr_bases"
    unfolding mr_bases_def
    by (simp add: modPow_nz_certificate [OF cand32_base_2] modPow_nz_certificate [OF cand32_base_3] modPow_nz_certificate [OF cand32_base_5] modPow_nz_certificate [OF cand32_base_7] modPow_nz_certificate [OF cand32_base_11] modPow_nz_certificate [OF cand32_base_13] modPow_nz_certificate [OF cand32_base_17] modPow_nz_certificate [OF cand32_base_19] modPow_nz_certificate [OF cand32_base_23])
  then have "mr_outer 0 16 1846996419 1 3693992839" by (rule mr_outer_accepts)
  then show ?thesis by (simp add: isPrimeMillerRabin_def d)
qed

lemma prime32: "generatePrimes3Mod4 4216 32 = Inr 3693992839"
  unfolding generatePrimes3Mod4_def
  by (subst generatePrime3Mod4_loop.simps) (simp add: new_BlumBlumShub_def cand32_drawn cand32_accepted)



lemma initPRNG_64: "initPRNG 64 (1078, 1078, 1078)
    = Inr \<lparr> gcrn_bits = 64, gcrn_prng = \<lparr> bbs_p = 3693992839, bbs_q = 3693992839,
        bbs_m = 3693992839 * 3693992839, bbs_bits = 64, bbs_state = 4216 \<rparr> \<rparr>"
  by (simp add: initPRNG_def new_BlumBlumShub_def reseed_1078 prime32)


section \<open>Signing, then verifying\<close>




section \<open>What \<open>verifyPSS\<close> does with an integer that is too long\<close>

lemma minus_one_power_mod:
  assumes "1 < n" "odd k"
  shows "(n - 1) ^ k mod n = n - (1::int)"
proof -
  have "(n - 1) mod n = (- 1) mod n" using mod_add_self1 [of n "- 1"] by simp
  then have "((n - 1) mod n) ^ k mod n = ((- 1) mod n) ^ k mod n" by simp
  then have "(n - 1) ^ k mod n = (- 1) ^ k mod n" by (simp only: power_mod)
  also have "(- 1 :: int) ^ k = - 1" using assms(2) by simp
  also have "(- 1) mod n = n - 1" using assms(1) by (simp add: zmod_minus1)
  finally show ?thesis .
qed

text \<open>
  Claim C4: a defect of the code.  The comparison \<open>mBuf.length > k\<close> stands before the
  \<open>try\<close> block of \<open>verifyPSS\<close>, so a recovered integer that needs more than
  \<open>k = ceil((bitLength n - 1) / 8)\<close> bytes makes the method throw where its documentation
  promises \<open>false\<close>.  Whenever the bit length of an odd modulus \<open>n\<close> is \<open>1\<close> modulo \<open>8\<close>, as
  for the 2049-bit moduli of \<open>generateKeys(1024)\<close>, and the public exponent is odd, the
  signature \<open>n - 1\<close> is such an input: \<open>(n - 1) ^ e mod n = n - 1\<close> has \<open>k + 1\<close> bytes.
\<close>

theorem verifyPSS_throws:
  assumes "1 < pub_n pub" "odd (pub_n pub)" "bitLength (pub_n pub) mod 8 = 1"
    "0 < pub_e pub" "odd (pub_e pub)"
  shows "verifyPSS (pub_n pub - 1) pub msg
       = Inl (Thrown ''Encoded message length too long in verification'')"
proof -
  let ?n = "pub_n pub" and ?e = "pub_e pub"
  define j where "j = bitLength ?n div 8"
  have bl: "bitLength ?n = 8 * j + 1" using assms(3) unfolding j_def by presburger
  have n0: "0 < ?n" using assms(1) by simp
  have k: "(bitLength ?n - 1 + 7) div 8 = j" by (simp add: bl)
  have "odd (nat ?e)" using assms(4,5) by (simp add: even_nat_iff)
  then have pw: "(?n - 1) ^ nat ?e mod ?n = ?n - 1"
    using assms(1) by (intro minus_one_power_mod)
  have m: "modPow (?n - 1) ?e ?n = Inr (?n - 1)"
    using modPow_eq [OF n0 _ assms(4), of "?n - 1"] assms(1) pw by simp
  have lo: "2 ^ (8 * j) \<le> ?n" using bitLength_bounds(1) [OF n0] by (simp add: bl)
  have "j \<noteq> 0"
  proof
    assume "j = 0"
    with bitLength_bounds(2) [OF n0] assms(1) show False by (simp add: bl)
  qed
  then have "even ((2::int) ^ (8 * j))" by simp
  with assms(2) have "(2::int) ^ (8 * j) \<noteq> ?n" by metis
  with lo have "(256::int) ^ j \<le> ?n - 1" by (simp add: power_mult)
  also have "?n - 1 = parseHex (toHex (bufferOfBigInt (?n - 1)))"
    using assms(1) by (simp add: bufferOfBigInt_value(1))
  also have "\<dots> < 256 ^ length (bufferOfBigInt (?n - 1))" by (rule parseHex_toHex_bounds)
  finally have "j < length (bufferOfBigInt (?n - 1))" by simp
  then show ?thesis
    unfolding verifyPSS_def Let_def m bind_simps k by simp
qed

theorem verifyPSS_throws_witness:
  "1 < pub_n (publicOf big_key) \<and> odd (pub_n (publicOf big_key))
   \<and> bitLength (pub_n (publicOf big_key)) mod 8 = 1
   \<and> 0 < pub_e (publicOf big_key) \<and> odd (pub_e (publicOf big_key))
   \<and> verifyPSS (pub_n (publicOf big_key) - 1) (publicOf big_key) [104, 105]
       = Inl (Thrown ''Encoded message length too long in verification'')"
proof -
  have b: "bitLength (pub_n (publicOf big_key)) mod 8 = 1"
    using big_key_bits by (simp add: publicOf_def)
  have n: "1 < pub_n (publicOf big_key)" "odd (pub_n (publicOf big_key))"
    "0 < pub_e (publicOf big_key)" "odd (pub_e (publicOf big_key))"
    by (simp_all add: publicOf_def big_key_def)
  from verifyPSS_throws [OF n(1,2) b n(3,4), of "[104, 105]"] n b show ?thesis by simp
qed

section \<open>The label of \<open>OAEPEncode\<close>\<close>

text \<open>
  Claim C9: a defect of the code.  \<open>OAEPEncode\<close> hands the label, a Buffer, to
  \<open>Hash.sha256\<close>, which works on strings: the label is read as UTF-8 text, and a label
  such as the single byte \<open>0xff\<close>, whose text is the replacement character, has no hash.
  The empty message fits in \<open>k = 128\<close> bytes, and yet the call throws a TypeError; with the
  empty label the same call returns 128 bytes, the first of them \<open>0x00\<close>.
\<close>

theorem OAEPEncode_byte_label_throws:
  "OAEPEncode [] [255] 128 (1078, 1078, 1078) = Inl TypeError
   \<and> \<not> int (length (utf8_encode [])) > 128 - 2 * 32 - 2
   \<and> (\<exists>EM. OAEPEncode [] [] 128 (1078, 1078, 1078) = Inr EM \<and> length EM = 128 \<and> EM ! 0 = 0)"
proof -
  have "utf8_decode [255] = [65533]" by (simp add: utf8_decode_def)
  then have "sha256_buffer [255] = None"
    by (simp add: sha256_buffer_def sha256_of_None)
  then have 1: "OAEPEncode [] [255] 128 (1078, 1078, 1078) = Inl TypeError"
    by (simp add: OAEPEncode_def utf8_encode_def bufferFromHex_def)
  have 2: "\<not> int (length (utf8_encode [])) > 128 - 2 * 32 - 2" by (simp add: utf8_encode_def)
  have "utf8_decode [] = []" by (simp add: utf8_decode_def)
  then obtain d where d: "sha256_buffer [] = Some d"
    using sha256_of_None [of 0 "[]"] by (auto simp: sha256_buffer_def)
  have "\<not> int 128 - int (length (utf8_encode [])) - 2 * 32 - 2 < 0" by (simp add: utf8_encode_def)
  from OAEPEncode_returns [OF this d initPRNG_64] 1 2 show ?thesis by simp
qed

end
